theory Spec2Isabelle
  imports Main "HOL-Library.Sublist"
begin

section \<open>Objects, references and errors\<close>

text \<open>
  Descriptors and named items are JavaScript objects: they have an identity, several
  places may refer to the same one, and the code copies some of them before writing to
  the copy. The model keeps them in an explicit store. An address is an index into a
  list of objects; allocation appends to the list.
\<close>

type_synonym addr = nat

text \<open>
  A named item (a property, an attribute or an event): \<open>name\<close>, the optional
  \<open>inheritedFrom\<close>, and \<open>detail\<close> for every other field it carries.
\<close>

record item =
  name :: string
  inheritedFrom :: "string option"
  detail :: string

text \<open>An entry of a \<open>behaviors\<close> array: \<open>string | BehaviorDescriptor\<close>.\<close>

datatype behavior_ref = ByName string | Direct addr

text \<open>
  An element or behavior descriptor object. \<open>polymer\<close> is the outcome of
  \<open>instanceof PolymerElementDescriptor\<close>; \<open>tagName\<close> and \<open>className\<close> may be
  undefined (\<open>None\<close>).
\<close>

record descriptor_obj =
  tagName :: "string option"
  className :: "string option"
  properties :: "addr list"
  attributes :: "addr list"
  events :: "addr list"
  behaviors :: "behavior_ref list"
  polymer :: bool

record heap =
  items :: "item list"
  objects :: "descriptor_obj list"

text \<open>
  Every \<open>throw\<close> of the source is a constructor. \<open>DanglingReference\<close> is not
  an error of the source: it is what the model returns for an address outside the store,
  which a JavaScript reference can never be.
\<close>

datatype verror = VError (vmessage: "string option") (vtoString: string)

datatype error =
    UnableToDeterminePathElement addr
  | UnableToDeterminePathBehavior addr
  | DistinctPaths addr string string
  | UnableToResolveBehavior string
  | UnknownKindOfDescriptor string
  | ThrowError string
  | ValidationError string "verror list"
  | InvalidSchemaVersion string
  | TypeError
  | DanglingReference

definition load :: "'a list \<Rightarrow> addr \<Rightarrow> error + 'a" where
  "load h a = (if a < length h then Inr (h ! a) else Inl DanglingReference)"

definition alloc :: "'a list \<Rightarrow> 'a \<Rightarrow> 'a list \<times> addr" where
  "alloc h x = (h @ [x], length h)"

section \<open>JavaScript \<open>Map\<close>: insertion-ordered\<close>

type_synonym ('k, 'v) jsmap = "('k \<times> 'v) list"

definition Map_has :: "('k, 'v) jsmap \<Rightarrow> 'k \<Rightarrow> bool" where
  "Map_has m k = (k \<in> set (map fst m))"

definition Map_get :: "('k, 'v) jsmap \<Rightarrow> 'k \<Rightarrow> 'v option" where
  "Map_get m k = map_of m k"

text \<open>\<open>set\<close> on a present key keeps the key's position and replaces its value.\<close>

fun Map_set :: "('k, 'v) jsmap \<Rightarrow> 'k \<Rightarrow> 'v \<Rightarrow> ('k, 'v) jsmap" where
  "Map_set [] k v = [(k, v)]"
| "Map_set ((k', v') # m) k v =
     (if k' = k then (k, v) # m else (k', v') # Map_set m k v)"

definition Map_values :: "('k, 'v) jsmap \<Rightarrow> 'v list" where
  "Map_values m = map snd m"

section \<open>\<open>mergeByName\<close>\<close>

text \<open>The first loop: \<open>for (const initial of base) byName.set(initial.name, initial)\<close>.\<close>

fun setInitial :: "item list \<Rightarrow> addr list \<Rightarrow> (string, addr) jsmap \<Rightarrow> error + (string, addr) jsmap" where
  "setInitial h [] m = Inr m"
| "setInitial h (a # as) m =
     (case load h a of
        Inl e \<Rightarrow> Inl e
      | Inr initial \<Rightarrow> setInitial h as (Map_set m (name initial) a))"

text \<open>
  The inner loop over \<open>source.vals\<close>. \<open>Object.assign({}, item)\<close> allocates a copy,
  and \<open>copy.inheritedFrom = source.name\<close> writes to the copy.
\<close>

fun inheritVals :: "string option \<Rightarrow> addr list \<Rightarrow> item list \<times> (string, addr) jsmap
    \<Rightarrow> error + (item list \<times> (string, addr) jsmap)" where
  "inheritVals src [] (h, m) = Inr (h, m)"
| "inheritVals src (a # as) (h, m) =
     (case load h a of
        Inl e \<Rightarrow> Inl e
      | Inr it \<Rightarrow>
          if \<not> Map_has m (name it) then
            (let (h1, copy) = alloc h it;
                 h2 = h1[copy := (h1 ! copy)\<lparr>inheritedFrom := src\<rparr>]
             in inheritVals src as (h2, Map_set m (name (h2 ! copy)) copy))
          else inheritVals src as (h, m))"

text \<open>The outer loop over \<open>inheritFrom\<close>; a source is \<open>{name, vals}\<close>.\<close>

fun inheritSources :: "(string option \<times> addr list) list \<Rightarrow> item list \<times> (string, addr) jsmap
    \<Rightarrow> error + (item list \<times> (string, addr) jsmap)" where
  "inheritSources [] st = Inr st"
| "inheritSources ((src, vals) # rest) st =
     (case inheritVals src vals st of
        Inl e \<Rightarrow> Inl e
      | Inr st' \<Rightarrow> inheritSources rest st')"

definition mergeByName :: "item list \<Rightarrow> addr list \<Rightarrow> (string option \<times> addr list) list
    \<Rightarrow> error + (item list \<times> addr list)" where
  "mergeByName h base inheritFrom =
     (case setInitial h base [] of
        Inl e \<Rightarrow> Inl e
      | Inr byName \<Rightarrow>
          (case inheritSources inheritFrom (h, byName) of
             Inl e \<Rightarrow> Inl e
           | Inr (h', byName') \<Rightarrow> Inr (h', Map_values byName')))"

text \<open>
  What the claim about merging speaks of: the first source, in order, that has an item
  of a given name, with the first such item of that source.
\<close>

fun firstDefining :: "item list \<Rightarrow> (string option \<times> addr list) list \<Rightarrow> string
    \<Rightarrow> (string option \<times> addr) option" where
  "firstDefining h [] n = None"
| "firstDefining h ((src, vals) # rest) n =
     (case find (\<lambda>a. name (h ! a) = n) vals of
        Some a \<Rightarrow> Some (src, a)
      | None \<Rightarrow> firstDefining h rest n)"

section \<open>Descriptors\<close>

text \<open>
  The class of \<open>dd.document\<close> decides \<open>instanceof JsonDocument\<close>; the document
  carries the url.
\<close>

datatype parsed_document = JsonDocument string | OtherDocument string

fun document_url :: "parsed_document \<Rightarrow> string" where
  "document_url (JsonDocument u) = u"
| "document_url (OtherDocument u) = u"

fun isJsonDocument :: "parsed_document \<Rightarrow> bool" where
  "isJsonDocument (JsonDocument u) = True"
| "isJsonDocument (OtherDocument u) = False"

text \<open>
  Modelled from the spec: the declarations of \<open>DocumentDescriptor\<close> and
  \<open>InlineDocumentDescriptor\<close> are in \<open>ast/ast\<close>, which is not among the sources.
  A document descriptor has its document, its \<open>entities\<close> and its \<open>dependencies\<close>;
  \<open>dd.url\<close> is the url of \<open>dd.document\<close>, the one path the spec gives a document.
  The spec calls an inline document a document embedded without a url of its own; it is
  given entities and dependencies like a document, so that what the walker does with
  them can be stated. Elements and behaviors are objects of the store; \<open>Null\<close> is a
  \<open>null\<close> entry and \<open>Other\<close> any object of another class, with its
  \<open>util.inspect\<close> rendering.
\<close>

datatype ddesc = DD (document: parsed_document) (entities: "descriptor list")
    (dependencies: "descriptor list")
  and descriptor =
    DocumentDescriptor ddesc
  | InlineDocumentDescriptor "descriptor list" "descriptor list"
  | ElementDescriptor addr
  | BehaviorDescriptor addr
  | ImportDescriptor string
  | Null
  | Other string

definition url :: "ddesc \<Rightarrow> string" where
  "url dd = document_url (document dd)"

section \<open>The walker and its visitors\<close>

text \<open>
  \<open>AnalysisVisitor\<close>: every callback is optional. A callback gets the node, the
  ancestors and the visitor's state, and returns the new state or the error it throws.
\<close>

record 's visitor =
  visitDocumentDescriptor :: "(ddesc \<Rightarrow> descriptor list \<Rightarrow> 's \<Rightarrow> error + 's) option"
  visitInlineDocumentDescriptor :: "(descriptor \<Rightarrow> descriptor list \<Rightarrow> 's \<Rightarrow> error + 's) option"
  visitElement :: "(addr \<Rightarrow> descriptor list \<Rightarrow> 's \<Rightarrow> error + 's) option"
  visitBehavior :: "(addr \<Rightarrow> descriptor list \<Rightarrow> 's \<Rightarrow> error + 's) option"
  visitImportDescriptor :: "(descriptor \<Rightarrow> descriptor list \<Rightarrow> 's \<Rightarrow> error + 's) option"
  visitDone :: "('s \<Rightarrow> error + 's) option"

text \<open>\<open>for (const visitor of visitors) if (visitor.m) visitor.m(node, ancestors)\<close>.\<close>

fun broadcast :: "('v \<Rightarrow> ('s \<Rightarrow> error + 's) option) \<Rightarrow> 'v list \<Rightarrow> 's \<Rightarrow> error + 's" where
  "broadcast m [] s = Inr s"
| "broadcast m (v # vs) s =
     (case m v of
        None \<Rightarrow> broadcast m vs s
      | Some call \<Rightarrow> (case call s of Inl e \<Rightarrow> Inl e | Inr s' \<Rightarrow> broadcast m vs s'))"

definition handler :: "('n \<Rightarrow> descriptor list \<Rightarrow> 's \<Rightarrow> error + 's) option \<Rightarrow> 'n \<Rightarrow> descriptor list
    \<Rightarrow> ('s \<Rightarrow> error + 's) option" where
  "handler f node ancestors = map_option (\<lambda>g. g node ancestors) f"

text \<open>
  The walker's state is its \<open>_ancestors\<close> stack with the state of the visitors.
\<close>

definition walkInlineDocumentDescriptor :: "'s visitor list \<Rightarrow> descriptor \<Rightarrow> descriptor list \<times> 's
    \<Rightarrow> error + (descriptor list \<times> 's)" where
  "walkInlineDocumentDescriptor visitors dd st =
     (case broadcast (\<lambda>v. handler (visitInlineDocumentDescriptor v) dd (fst st)) visitors (snd st) of
        Inl e \<Rightarrow> Inl e
      | Inr s' \<Rightarrow> Inr (fst st, s'))"

definition walkElement :: "'s visitor list \<Rightarrow> addr \<Rightarrow> descriptor list \<times> 's
    \<Rightarrow> error + (descriptor list \<times> 's)" where
  "walkElement visitors element st =
     (case broadcast (\<lambda>v. handler (visitElement v) element (fst st)) visitors (snd st) of
        Inl e \<Rightarrow> Inl e
      | Inr s' \<Rightarrow> Inr (fst st, s'))"

definition walkBehavior :: "'s visitor list \<Rightarrow> addr \<Rightarrow> descriptor list \<times> 's
    \<Rightarrow> error + (descriptor list \<times> 's)" where
  "walkBehavior visitors behavior st =
     (case broadcast (\<lambda>v. handler (visitBehavior v) behavior (fst st)) visitors (snd st) of
        Inl e \<Rightarrow> Inl e
      | Inr s' \<Rightarrow> Inr (fst st, s'))"

definition walkImportDescriptor :: "'s visitor list \<Rightarrow> descriptor \<Rightarrow> descriptor list \<times> 's
    \<Rightarrow> error + (descriptor list \<times> 's)" where
  "walkImportDescriptor visitors importDesc st =
     (case broadcast (\<lambda>v. handler (visitImportDescriptor v) importDesc (fst st)) visitors (snd st) of
        Inl e \<Rightarrow> Inl e
      | Inr s' \<Rightarrow> Inr (fst st, s'))"

text \<open>
  \<open>_walkDocumentDescriptor\<close> pushes the document, calls the visitors, walks the
  entities and then the dependencies, and pops. \<open>_walkEntity\<close> dispatches on the class
  of the entity; \<open>walkEntities\<close> is the \<open>for\<close> loop over a list of entities.
\<close>

fun walkDocumentDescriptor :: "'s visitor list \<Rightarrow> ddesc \<Rightarrow> descriptor list \<times> 's
    \<Rightarrow> error + (descriptor list \<times> 's)"
  and walkEntity :: "'s visitor list \<Rightarrow> descriptor \<Rightarrow> descriptor list \<times> 's
    \<Rightarrow> error + (descriptor list \<times> 's)"
  and walkEntities :: "'s visitor list \<Rightarrow> descriptor list \<Rightarrow> descriptor list \<times> 's
    \<Rightarrow> error + (descriptor list \<times> 's)" where
  "walkDocumentDescriptor visitors (DD doc ents deps) st =
     (let ancestors = fst st @ [DocumentDescriptor (DD doc ents deps)] in
      case broadcast (\<lambda>v. handler (visitDocumentDescriptor v) (DD doc ents deps) ancestors)
             visitors (snd st) of
        Inl e \<Rightarrow> Inl e
      | Inr s1 \<Rightarrow>
          (case walkEntities visitors ents (ancestors, s1) of
             Inl e \<Rightarrow> Inl e
           | Inr st2 \<Rightarrow>
               (case walkEntities visitors deps st2 of
                  Inl e \<Rightarrow> Inl e
                | Inr st3 \<Rightarrow> Inr (butlast (fst st3), snd st3))))"
| "walkEntity visitors Null st = Inr st"
| "walkEntity visitors (DocumentDescriptor dd) st = walkDocumentDescriptor visitors dd st"
| "walkEntity visitors (InlineDocumentDescriptor ents deps) st =
     walkInlineDocumentDescriptor visitors (InlineDocumentDescriptor ents deps) st"
| "walkEntity visitors (BehaviorDescriptor b) st = walkBehavior visitors b st"
| "walkEntity visitors (ElementDescriptor e) st = walkElement visitors e st"
| "walkEntity visitors (ImportDescriptor u) st =
     walkImportDescriptor visitors (ImportDescriptor u) st"
| "walkEntity visitors (Other rendering) st = Inl (UnknownKindOfDescriptor rendering)"
| "walkEntities visitors [] st = Inr st"
| "walkEntities visitors (entity # rest) st =
     (case walkEntity visitors entity st of
        Inl e \<Rightarrow> Inl e
      | Inr st' \<Rightarrow> walkEntities visitors rest st')"

fun walkDocuments :: "'s visitor list \<Rightarrow> ddesc list \<Rightarrow> descriptor list \<times> 's
    \<Rightarrow> error + (descriptor list \<times> 's)" where
  "walkDocuments visitors [] st = Inr st"
| "walkDocuments visitors (dd # rest) st =
     (case walkDocumentDescriptor visitors dd st of
        Inl e \<Rightarrow> Inl e
      | Inr st' \<Rightarrow> walkDocuments visitors rest st')"

text \<open>\<open>walk\<close> empties the stack, walks the documents and calls every \<open>done\<close>.\<close>

definition walk :: "'s visitor list \<Rightarrow> ddesc list \<Rightarrow> 's \<Rightarrow> error + 's" where
  "walk visitors documents s =
     (case walkDocuments visitors documents ([], s) of
        Inl e \<Rightarrow> Inl e
      | Inr st \<Rightarrow> broadcast visitDone visitors (snd st))"

section \<open>The gatherers\<close>

text \<open>
  Node's \<open>path.basename\<close> and \<open>path.dirname\<close> on POSIX paths (a library, not code of
  the repository): trailing slashes are ignored, the base name is what follows the last
  remaining slash, the directory what precedes it.
\<close>

definition basename :: "string \<Rightarrow> string" where
  "basename p =
     rev (takeWhile (\<lambda>c. c \<noteq> CHR ''/'') (dropWhile (\<lambda>c. c = CHR ''/'') (rev p)))"

definition dirname :: "string \<Rightarrow> string" where
  "dirname p =
     (if p = [] then ''.''
      else
        (let hasRoot = (hd p = CHR ''/'');
             upto_slash = dropWhile (\<lambda>c. c \<noteq> CHR ''/'')
                            (dropWhile (\<lambda>c. c = CHR ''/'') (rev (tl p)))
         in if upto_slash = [] then (if hasRoot then ''/'' else ''.'')
            else if hasRoot \<and> length upto_slash = 1 then ''//''
            else take (length upto_slash) p))"

text \<open>
  The two gatherers are two objects; their fields are kept in one record, and each
  visitor writes only its own fields. \<open>packageDirs\<close> is a \<open>Set\<close>, in insertion order.
\<close>

record gathered =
  packageDirs :: "string list"
  elementDescriptors :: "addr list"
  elementPaths :: "(addr, string) jsmap"
  behaviorDescriptors :: "addr list"
  behaviorPaths :: "(addr, string) jsmap"

definition packageFileNames :: "string list" where
  "packageFileNames = [''package.json'', ''bower.json'']"

definition PackageGatherer_visitDocumentDescriptor :: "ddesc \<Rightarrow> descriptor list \<Rightarrow> gathered
    \<Rightarrow> error + gathered" where
  "PackageGatherer_visitDocumentDescriptor dd ancestors s =
     (if isJsonDocument (document dd)
         \<and> basename (document_url (document dd)) \<in> set packageFileNames then
        (let dir = dirname (document_url (document dd))
         in if dir \<notin> set (packageDirs s)
            then Inr (s\<lparr>packageDirs := packageDirs s @ [dir]\<rparr>)
            else Inr s)
      else Inr s)"

definition PackageGatherer :: "gathered visitor" where
  "PackageGatherer =
     \<lparr>visitDocumentDescriptor = Some PackageGatherer_visitDocumentDescriptor,
      visitInlineDocumentDescriptor = None, visitElement = None, visitBehavior = None,
      visitImportDescriptor = None, visitDone = None\<rparr>"

text \<open>
  \<open>_getPathFromAncestors\<close>: the url of the last ancestor that is a document
  descriptor with a non-empty url, or undefined.
\<close>

fun hasUrl :: "descriptor \<Rightarrow> bool" where
  "hasUrl (DocumentDescriptor dd) = (url dd \<noteq> [])"
| "hasUrl d = False"

fun urlOf :: "descriptor \<Rightarrow> string" where
  "urlOf (DocumentDescriptor dd) = url dd"
| "urlOf d = []"

definition getPathFromAncestors :: "descriptor list \<Rightarrow> string option" where
  "getPathFromAncestors ancestors =
     (let documentAncestors = filter hasUrl ancestors
      in if documentAncestors = [] then None else Some (urlOf (last documentAncestors)))"

definition visitElement_gather :: "addr \<Rightarrow> descriptor list \<Rightarrow> gathered \<Rightarrow> error + gathered" where
  "visitElement_gather elementDescriptor ancestors s =
     (case getPathFromAncestors ancestors of
        None \<Rightarrow> Inl (UnableToDeterminePathElement elementDescriptor)
      | Some elementPath \<Rightarrow>
          if elementPath = [] then Inl (UnableToDeterminePathElement elementDescriptor)
          else
            (case Map_get (elementPaths s) elementDescriptor of
               Some recorded \<Rightarrow>
                 if recorded \<noteq> elementPath
                 then Inl (DistinctPaths elementDescriptor elementPath recorded)
                 else Inr s
             | None \<Rightarrow>
                 Inr (s\<lparr>elementPaths := Map_set (elementPaths s) elementDescriptor elementPath,
                        elementDescriptors := elementDescriptors s @ [elementDescriptor]\<rparr>)))"

definition visitBehavior_gather :: "addr \<Rightarrow> descriptor list \<Rightarrow> gathered \<Rightarrow> error + gathered" where
  "visitBehavior_gather behaviorDescriptor ancestors s =
     (case getPathFromAncestors ancestors of
        None \<Rightarrow> Inl (UnableToDeterminePathBehavior behaviorDescriptor)
      | Some path \<Rightarrow>
          if path = [] then Inl (UnableToDeterminePathBehavior behaviorDescriptor)
          else
            (case Map_get (behaviorPaths s) behaviorDescriptor of
               Some recorded \<Rightarrow>
                 if recorded \<noteq> path
                 then Inl (DistinctPaths behaviorDescriptor path recorded)
                 else Inr s
             | None \<Rightarrow>
                 Inr (s\<lparr>behaviorPaths := Map_set (behaviorPaths s) behaviorDescriptor path,
                        behaviorDescriptors := behaviorDescriptors s @ [behaviorDescriptor]\<rparr>)))"

definition ElementGatherer :: "gathered visitor" where
  "ElementGatherer =
     \<lparr>visitDocumentDescriptor = None, visitInlineDocumentDescriptor = None,
      visitElement = Some visitElement_gather, visitBehavior = Some visitBehavior_gather,
      visitImportDescriptor = None, visitDone = None\<rparr>"

definition gathered_empty :: gathered where
  "gathered_empty =
     \<lparr>packageDirs = [], elementDescriptors = [], elementPaths = [],
      behaviorDescriptors = [], behaviorPaths = []\<rparr>"

text \<open>
  The text of each thrown error. An object in a template string is rendered by its
  default \<open>toString\<close>.
\<close>

definition objectObject :: string where
  "objectObject = ''[object Object]''"

fun digit :: "nat \<Rightarrow> char" where
  "digit n = (''0123456789'' ! (n mod 10))"

fun decimal :: "nat \<Rightarrow> string" where
  "decimal n = (if n < 10 then [digit n] else decimal (n div 10) @ [digit n])"

declare decimal.simps [simp del]

fun join :: "string \<Rightarrow> string list \<Rightarrow> string" where
  "join sep [] = []"
| "join sep [x] = x"
| "join sep (x # y # ys) = x @ sep @ join sep (y # ys)"

definition shown :: "verror \<Rightarrow> string" where
  "shown err =
     (case vmessage err of
        Some m \<Rightarrow> if m \<noteq> [] then m else vtoString err
      | None \<Rightarrow> vtoString err)"

definition ValidationError_message :: "verror list \<Rightarrow> string" where
  "ValidationError_message errs =
     ''Unable to validate serialized Polymer analysis. '' @
     ''Got '' @ decimal (length errs) @ '' errors: '' @
     join [CHR 0x0A] (map (\<lambda>err. ''    '' @ shown err) errs)"

fun message :: "error \<Rightarrow> string" where
  "message (UnableToDeterminePathElement e) =
     ''Unable to determine path to element: '' @ objectObject"
| "message (UnableToDeterminePathBehavior b) =
     ''Unable to determine path to behavior: '' @ objectObject"
| "message (DistinctPaths d path recorded) =
     ''Found element '' @ objectObject @ '' at distinct paths: '' @ path @ '' and '' @ recorded"
| "message (UnableToResolveBehavior behaviorName) =
     ''Unable to resolve behavior '' @ [CHR 0x60] @ behaviorName @ [CHR 0x60] @ '' '' @
     ''Did you import it? Is it annotated with @polymerBehavior?''"
| "message (UnknownKindOfDescriptor shown_entity) =
     ''Unknown kind of descriptor: '' @ shown_entity"
| "message (ThrowError t) = t"
| "message (ValidationError m errs) = m"
| "message (InvalidSchemaVersion v) =
     ''Invalid schema_version in AnalyzedPackage. '' @ ''Expected 1.x.x, got '' @ v"
| "message TypeError = ''TypeError''"
| "message DanglingReference = []"

section \<open>The analysis and behavior resolution\<close>

text \<open>The private fields of \<open>Analysis\<close>; an element or behavior is held by its address.\<close>

record analysis =
  descriptors :: "ddesc list"
  elementsByTagName :: "(string, addr) jsmap"
  elementsByPackageDir :: "(string, addr list) jsmap"
  behaviorsByIdentifierName :: "(string, addr) jsmap"
  documentsByLocalPath :: "(string, ddesc) jsmap"

definition getBehavior :: "analysis \<Rightarrow> string \<Rightarrow> addr option" where
  "getBehavior this n = Map_get (behaviorsByIdentifierName this) n"

text \<open>
  The head of the loop body of \<open>_getFlattenedAndResolvedBehaviors\<close>: a string is
  looked up with \<open>getBehavior\<close>, and an unknown name throws.
\<close>

definition lookupBehavior :: "analysis \<Rightarrow> behavior_ref \<Rightarrow> error + addr" where
  "lookupBehavior analysis behavior =
     (case behavior of
        ByName behaviorName \<Rightarrow>
          (case getBehavior analysis behaviorName of
             None \<Rightarrow> Inl (UnableToResolveBehavior behaviorName)
           | Some b \<Rightarrow> Inr b)
      | Direct b \<Rightarrow> Inr b)"

text \<open>
  \<open>_getFlattenedAndResolvedBehaviors\<close>: the \<open>Set\<close> of resolved behaviors is an
  insertion-ordered list without duplicates. The recursive call on \<open>behavior.behaviors\<close>
  returns the set it has extended, and the loop goes on with that set.
\<close>

function getFlattenedAndResolvedBehaviors_rec :: "descriptor_obj list \<Rightarrow> analysis
    \<Rightarrow> behavior_ref list \<Rightarrow> addr list \<Rightarrow> error + addr list" where
  "getFlattenedAndResolvedBehaviors_rec h analysis [] resolvedBehaviors = Inr resolvedBehaviors"
| "getFlattenedAndResolvedBehaviors_rec h analysis (behavior # toLookup) resolvedBehaviors =
     (case lookupBehavior analysis behavior of
        Inl e \<Rightarrow> Inl e
      | Inr b \<Rightarrow>
          if b \<in> set resolvedBehaviors
          then getFlattenedAndResolvedBehaviors_rec h analysis toLookup resolvedBehaviors
          else
            (case load h b of
               Inl e \<Rightarrow> Inl e
             | Inr obj \<Rightarrow>
                 (case getFlattenedAndResolvedBehaviors_rec h analysis (behaviors obj)
                         (resolvedBehaviors @ [b]) of
                    Inl e \<Rightarrow> Inl e
                  | Inr resolved' \<Rightarrow>
                      getFlattenedAndResolvedBehaviors_rec h analysis toLookup resolved')))"
  by pat_completeness auto

text \<open>The set only grows, which is what termination of the loop after the inner call needs.\<close>

lemma rec_grows:
  "getFlattenedAndResolvedBehaviors_rec_dom (h, an, bs, vis) \<Longrightarrow>
   getFlattenedAndResolvedBehaviors_rec h an bs vis = Inr out \<Longrightarrow> set vis \<subseteq> set out"
proof (induction h an bs vis arbitrary: out rule: getFlattenedAndResolvedBehaviors_rec.pinduct)
  case (1 h an vis)
  then show ?case by (simp add: getFlattenedAndResolvedBehaviors_rec.psimps)
next
  case (2 h an behavior toLookup vis)
  from 2(5) show ?case
    unfolding getFlattenedAndResolvedBehaviors_rec.psimps(2)[OF 2(1)]
    using 2(2,3,4)
    by (fastforce split: sum.splits if_splits)
qed

termination getFlattenedAndResolvedBehaviors_rec
proof (relation "(\<lambda>(h, an, bs, vis). card ({..<length h} - set vis)) <*mlex*>
                 measure (\<lambda>(h, an, bs, vis). length bs)")
  show "wf ((\<lambda>(h, an, bs, vis). card ({..<length h} - set vis)) <*mlex*>
                 measure (\<lambda>(h, an, bs, vis). length bs))"
    by (simp add: wf_mlex)
next
  fix h :: "descriptor_obj list" and an :: analysis and behavior :: behavior_ref
    and toLookup :: "behavior_ref list" and vis :: "addr list"
  show "((h, an, toLookup, vis), (h, an, behavior # toLookup, vis))
        \<in> (\<lambda>(h, an, bs, vis). card ({..<length h} - set vis)) <*mlex*>
                 measure (\<lambda>(h, an, bs, vis). length bs)"
    by (simp add: mlex_iff)
next
  fix h :: "descriptor_obj list" and an :: analysis and behavior :: behavior_ref
    and toLookup :: "behavior_ref list" and vis :: "addr list" and b :: addr
    and obj :: descriptor_obj
  assume "lookupBehavior an behavior = Inr b" "b \<notin> set vis" "load h b = Inr obj"
  then have "b < length h" by (auto simp: load_def split: if_splits)
  then have "{..<length h} - set (vis @ [b]) \<subset> {..<length h} - set vis"
    using \<open>b \<notin> set vis\<close> by auto
  then have "card ({..<length h} - set (vis @ [b])) < card ({..<length h} - set vis)"
    by (intro psubset_card_mono) auto
  then show "((h, an, behaviors obj, vis @ [b]), (h, an, behavior # toLookup, vis))
        \<in> (\<lambda>(h, an, bs, vis). card ({..<length h} - set vis)) <*mlex*>
                 measure (\<lambda>(h, an, bs, vis). length bs)"
    by (simp add: mlex_iff)
next
  fix h :: "descriptor_obj list" and an :: analysis and behavior :: behavior_ref
    and toLookup :: "behavior_ref list" and vis :: "addr list" and b :: addr
    and obj :: descriptor_obj and out :: "addr list"
  assume "b \<notin> set vis"
    and r: "getFlattenedAndResolvedBehaviors_rec h an (behaviors obj) (vis @ [b]) = Inr out"
    and d: "getFlattenedAndResolvedBehaviors_rec_dom (h, an, behaviors obj, vis @ [b])"
  have "set (vis @ [b]) \<subseteq> set out" by (rule rec_grows[OF d r])
  then have "{..<length h} - set out \<subseteq> {..<length h} - set vis" by auto
  then have "card ({..<length h} - set out) \<le> card ({..<length h} - set vis)"
    by (intro card_mono) auto
  then show "((h, an, toLookup, out), (h, an, behavior # toLookup, vis))
        \<in> (\<lambda>(h, an, bs, vis). card ({..<length h} - set vis)) <*mlex*>
                 measure (\<lambda>(h, an, bs, vis). length bs)"
    by (auto simp: mlex_iff)
qed


definition getFlattenedAndResolvedBehaviors :: "descriptor_obj list \<Rightarrow> behavior_ref list
    \<Rightarrow> analysis \<Rightarrow> error + addr list" where
  "getFlattenedAndResolvedBehaviors h bs analysis =
     getFlattenedAndResolvedBehaviors_rec h analysis bs []"

section \<open>\<open>resolveElement\<close>\<close>

fun loadAll :: "'a list \<Rightarrow> addr list \<Rightarrow> error + 'a list" where
  "loadAll h [] = Inr []"
| "loadAll h (a # as) =
     (case load h a of
        Inl e \<Rightarrow> Inl e
      | Inr x \<Rightarrow> (case loadAll h as of Inl e \<Rightarrow> Inl e | Inr xs \<Rightarrow> Inr (x # xs)))"

text \<open>
  The three merges run on the store of items one after the other. The clone is a new
  plain object: it gets every field of the descriptor and then the three merged lists,
  and it is not an instance of \<open>PolymerElementDescriptor\<close>.
\<close>

definition resolveElement :: "heap \<Rightarrow> addr \<Rightarrow> analysis \<Rightarrow> error + (heap \<times> addr)" where
  "resolveElement h elementDescriptor analysis =
     (case load (objects h) elementDescriptor of
        Inl e \<Rightarrow> Inl e
      | Inr obj \<Rightarrow>
          (case
             (if polymer obj then
                (case getFlattenedAndResolvedBehaviors (objects h) (behaviors obj) analysis of
                   Inl e \<Rightarrow> Inl e
                 | Inr resolved \<Rightarrow>
                     (case loadAll (objects h) resolved of
                        Inl e \<Rightarrow> Inl e
                      | Inr bs \<Rightarrow>
                          (case mergeByName (items h) (properties obj)
                                  (map (\<lambda>b. (className b, properties b)) bs) of
                             Inl e \<Rightarrow> Inl e
                           | Inr (i1, props) \<Rightarrow>
                               (case mergeByName i1 (attributes obj)
                                       (map (\<lambda>b. (className b, attributes b)) bs) of
                                  Inl e \<Rightarrow> Inl e
                                | Inr (i2, attrs) \<Rightarrow>
                                    (case mergeByName i2 (events obj)
                                            (map (\<lambda>b. (className b, events b)) bs) of
                                       Inl e \<Rightarrow> Inl e
                                     | Inr (i3, evs) \<Rightarrow> Inr (i3, props, attrs, evs))))))
              else Inr (items h, properties obj, attributes obj, events obj)) of
             Inl e \<Rightarrow> Inl e
           | Inr (its, props, attrs, evs) \<Rightarrow>
               (let (os1, clone) = alloc (objects h) (obj\<lparr>polymer := False\<rparr>);
                    os2 = os1[clone := (os1 ! clone)\<lparr>properties := props\<rparr>];
                    os3 = os2[clone := (os2 ! clone)\<lparr>attributes := attrs\<rparr>];
                    os4 = os3[clone := (os3 ! clone)\<lparr>events := evs\<rparr>]
                in Inr (\<lparr>items = its, objects = os4\<rparr>, clone))))"

section \<open>Construction of the analysis\<close>

text \<open>
  \<open>max\<close> is a \<open>reduce\<close> from \<open>undefined\<close>; \<open>longer\<close> is the comparison
  \<open>(a, b) => a != null && a.length - b.length || -1\<close> of the constructor.
\<close>

definition max_of :: "'a list \<Rightarrow> ('a option \<Rightarrow> 'a \<Rightarrow> int) \<Rightarrow> 'a option" where
  "max_of arr comparison =
     foldl (\<lambda>prev cur. if comparison prev cur > 0 then prev else Some cur) None arr"

definition longer :: "string option \<Rightarrow> string \<Rightarrow> int" where
  "longer a b =
     (case a of
        None \<Rightarrow> - 1
      | Some a' \<Rightarrow>
          if int (length a') - int (length b) \<noteq> 0 then int (length a') - int (length b)
          else - 1)"

fun indexBehaviors :: "descriptor_obj list \<Rightarrow> addr list \<Rightarrow> (string, addr) jsmap
    \<Rightarrow> error + (string, addr) jsmap" where
  "indexBehaviors h [] m = Inr m"
| "indexBehaviors h (behavior # rest) m =
     (case load h behavior of
        Inl e \<Rightarrow> Inl e
      | Inr obj \<Rightarrow>
          (case className obj of
             None \<Rightarrow> indexBehaviors h rest m
           | Some c \<Rightarrow>
               if c \<noteq> [] then indexBehaviors h rest (Map_set m c behavior)
               else indexBehaviors h rest m))"

definition longestMatchingPackageDir :: "string list \<Rightarrow> string \<Rightarrow> string" where
  "longestMatchingPackageDir dirs elementPath =
     (let matchingPackageDirs = filter (\<lambda>dir. prefix dir elementPath) dirs
      in case max_of matchingPackageDirs longer of
           None \<Rightarrow> []
         | Some dir \<Rightarrow> if dir \<noteq> [] then dir else [])"

text \<open>The body of the loop over \<open>elementsGatherer.elementDescriptors\<close>.\<close>

definition indexElement :: "gathered \<Rightarrow> addr \<Rightarrow> heap \<times> analysis \<Rightarrow> error + (heap \<times> analysis)" where
  "indexElement g originalElement st =
     (case resolveElement (fst st) originalElement (snd st) of
        Inl e \<Rightarrow> Inl e
      | Inr (h1, element) \<Rightarrow>
          (case load (objects h1) element of
             Inl e \<Rightarrow> Inl e
           | Inr obj \<Rightarrow>
               (let this1 =
                      (case tagName obj of
                         None \<Rightarrow> snd st
                       | Some tag \<Rightarrow>
                           if tag \<noteq> []
                           then (snd st)\<lparr>elementsByTagName :=
                                  Map_set (elementsByTagName (snd st)) tag element\<rparr>
                           else snd st)
                in case Map_get (elementPaths g) originalElement of
                     None \<Rightarrow> Inl TypeError
                   | Some elementPath \<Rightarrow>
                       (let dir = longestMatchingPackageDir (packageDirs g) elementPath;
                            elementsInPackage =
                              (case Map_get (elementsByPackageDir this1) dir of
                                 None \<Rightarrow> []
                               | Some l \<Rightarrow> l)
                        in Inr (h1, this1\<lparr>elementsByPackageDir :=
                                  Map_set (elementsByPackageDir this1) dir
                                    (elementsInPackage @ [element])\<rparr>)))))"

fun indexElements :: "gathered \<Rightarrow> addr list \<Rightarrow> heap \<times> analysis \<Rightarrow> error + (heap \<times> analysis)" where
  "indexElements g [] st = Inr st"
| "indexElements g (originalElement # rest) st =
     (case indexElement g originalElement st of
        Inl e \<Rightarrow> Inl e
      | Inr st' \<Rightarrow> indexElements g rest st')"

fun indexDocuments :: "ddesc list \<Rightarrow> (string, ddesc) jsmap \<Rightarrow> (string, ddesc) jsmap" where
  "indexDocuments [] m = m"
| "indexDocuments (dd # rest) m = indexDocuments rest (Map_set m (url dd) dd)"

definition gather :: "ddesc list \<Rightarrow> error + gathered" where
  "gather ds = walk [PackageGatherer, ElementGatherer] ds gathered_empty"

definition Analysis_new :: "heap \<Rightarrow> ddesc list \<Rightarrow> error + (heap \<times> analysis)" where
  "Analysis_new h ds =
     (case gather ds of
        Inl e \<Rightarrow> Inl e
      | Inr g \<Rightarrow>
          (case indexBehaviors (objects h) (behaviorDescriptors g) [] of
             Inl e \<Rightarrow> Inl e
           | Inr byName \<Rightarrow>
               (case indexElements g (elementDescriptors g)
                       (h, \<lparr>descriptors = ds, elementsByTagName = [], elementsByPackageDir = [],
                            behaviorsByIdentifierName = byName, documentsByLocalPath = []\<rparr>) of
                  Inl e \<Rightarrow> Inl e
                | Inr (h', this) \<Rightarrow>
                    Inr (h', this\<lparr>documentsByLocalPath := indexDocuments ds []\<rparr>))))"



definition getElementsForPackage :: "analysis \<Rightarrow> string \<Rightarrow> addr list option" where
  "getElementsForPackage this dirName = Map_get (elementsByPackageDir this) dirName"

definition getDocument :: "analysis \<Rightarrow> string \<Rightarrow> ddesc option" where
  "getDocument this path = Map_get (documentsByLocalPath this) path"

section \<open>\<open>validate\<close>\<close>

text \<open>
  The \<open>jsonschema\<close> validator and the schema are outside the repository: the
  validator is a parameter, and of its result the code reads \<open>throwError\<close> and
  \<open>errors\<close>. \<open>matches_1_x_x\<close> is the test of the regular expression: the text is
  \<open>1.\<close>, one or more digits, a dot, one or more digits, and nothing else.
\<close>

record validator_result =
  throwError :: "string option"
  errors :: "verror list"

record analyzed_package =
  schema_version :: string
  elements :: "string list"

definition isDigit :: "char \<Rightarrow> bool" where
  "isDigit c = (c \<in> set ''0123456789'')"

definition matches_1_x_x :: "string \<Rightarrow> bool" where
  "matches_1_x_x s =
     (case s of
        a # b # rest \<Rightarrow>
          a = CHR ''1'' \<and> b = CHR ''.'' \<and>
          (let minor = takeWhile isDigit rest; after = dropWhile isDigit rest
           in minor \<noteq> [] \<and>
              (case after of
                 c # patch \<Rightarrow> c = CHR ''.'' \<and> patch \<noteq> [] \<and> list_all isDigit patch
               | [] \<Rightarrow> False))
      | _ \<Rightarrow> False)"

definition validate :: "(analyzed_package option \<Rightarrow> validator_result) \<Rightarrow> analyzed_package option
    \<Rightarrow> error + unit" where
  "validate validator analyzedPackage =
     (let result = validator analyzedPackage
      in case throwError result of
           Some thrown \<Rightarrow> Inl (ThrowError thrown)
         | None \<Rightarrow>
             if length (errors result) > 0
             then Inl (ValidationError (ValidationError_message (errors result)) (errors result))
             else
               (case analyzedPackage of
                  None \<Rightarrow> Inl TypeError
                | Some pkg \<Rightarrow>
                    if \<not> matches_1_x_x (schema_version pkg)
                    then Inl (InvalidSchemaVersion (schema_version pkg))
                    else Inr ()))"

section \<open>Merging by name: base items win, then the first source\<close>

text \<open>
  The proofs describe a run of the two inheriting loops by the list of
  (source name, item) pairs that get copied: \<open>pick\<close> walks the pairs of all sources in
  order and keeps a pair when its name is neither a key of the map yet nor taken by an
  earlier pair.
\<close>

lemma Map_set_fresh: "k \<notin> set (map fst m) \<Longrightarrow> Map_set m k v = m @ [(k, v)]"
  by (induction m) auto

fun pick :: "item list \<Rightarrow> string set \<Rightarrow> (string option \<times> addr) list \<Rightarrow> (string option \<times> addr) list" where
  "pick h K [] = []"
| "pick h K ((s, a) # ps) =
     (if name (h ! a) \<in> K then pick h K ps else (s, a) # pick h (insert (name (h ! a)) K) ps)"

definition pairs :: "(string option \<times> addr list) list \<Rightarrow> (string option \<times> addr) list" where
  "pairs srcs = concat (map (\<lambda>(s, vals). map (Pair s) vals) srcs)"

definition copyOf :: "item list \<Rightarrow> string option \<times> addr \<Rightarrow> item" where
  "copyOf h p = (h ! snd p)\<lparr>inheritedFrom := fst p\<rparr>"

definition entries :: "item list \<Rightarrow> nat \<Rightarrow> (string option \<times> addr) list \<Rightarrow> (string \<times> addr) list" where
  "entries h n P = map (\<lambda>(p, c). (name (h ! snd p), c)) (zip P [n ..< n + length P])"

lemma entries_Nil: "entries h n [] = []" by (simp add: entries_def)
lemma entries_Cons: "entries h n (p # P) = (name (h ! snd p), n) # entries h (Suc n) P"
  by (simp add: entries_def upt_conv_Cons del: upt_Suc)

lemma map_fst_entries: "map fst (entries h n P) = map (\<lambda>p. name (h ! snd p)) P"
  by (induction P arbitrary: n) (auto simp: entries_Nil entries_Cons)
lemma map_snd_entries: "map snd (entries h n P) = [n ..< n + length P]"
  by (induction P arbitrary: n) (auto simp: entries_Nil entries_Cons upt_conv_Cons simp del: upt_Suc)

lemma alloc_write: "(a @ b @ [x])[length a + length b := y] = a @ b @ [y]"
  by (simp add: list_update_append)

lemma inheritVals_pick:
  assumes "\<forall>a\<in>set vals. a < length h0"
  shows "inheritVals src vals (h0 @ ex, m) =
     Inr ((h0 @ ex) @ map (copyOf h0) (pick h0 (set (map fst m)) (map (Pair src) vals)),
          m @ entries h0 (length (h0 @ ex)) (pick h0 (set (map fst m)) (map (Pair src) vals)))"
  using assms
proof (induction vals arbitrary: ex m)
  case Nil
  then show ?case by (simp add: entries_Nil)
next
  case (Cons a vals)
  have a: "a < length h0" using Cons.prems by simp
  have ld: "load (h0 @ ex) a = Inr (h0 ! a)" using a by (simp add: load_def nth_append)
  show ?case
  proof (cases "name (h0 ! a) \<in> set (map fst m)")
    case True
    then show ?thesis using Cons ld by (simp add: Map_has_def)
  next
    case False
    have step: "inheritVals src (a # vals) (h0 @ ex, m) =
       inheritVals src vals (h0 @ (ex @ [copyOf h0 (src, a)]), m @ [(name (h0 ! a), length (h0 @ ex))])"
      using False ld
      by (simp add: Map_has_def alloc_def copyOf_def Map_set_fresh nth_append alloc_write)
    have ih: "inheritVals src vals (h0 @ (ex @ [copyOf h0 (src, a)]), m @ [(name (h0 ! a), length (h0 @ ex))]) =
       Inr ((h0 @ (ex @ [copyOf h0 (src, a)])) @ map (copyOf h0) (pick h0 (set (map fst (m @ [(name (h0 ! a), length (h0 @ ex))]))) (map (Pair src) vals)),
          (m @ [(name (h0 ! a), length (h0 @ ex))]) @ entries h0 (length (h0 @ (ex @ [copyOf h0 (src, a)]))) (pick h0 (set (map fst (m @ [(name (h0 ! a), length (h0 @ ex))]))) (map (Pair src) vals)))"
      using Cons.prems by (intro Cons.IH) simp
    show ?thesis unfolding step ih using False by (simp add: entries_Cons)
  qed
qed


lemma names_pick: "(\<lambda>p. name (h ! snd p)) ` set (pick h K ps) \<union> K = (\<lambda>p. name (h ! snd p)) ` set ps \<union> K"
  by (induction h K ps rule: pick.induct) auto

lemma pick_append: "pick h K (xs @ ys) = pick h K xs @ pick h ((\<lambda>p. name (h ! snd p)) ` set (pick h K xs) \<union> K) ys"
proof (induction h K xs rule: pick.induct)
  case (1 h K)
  then show ?case by simp
next
  case (2 h K s a ps)
  then show ?case by (simp add: insert_commute)
qed

lemma entries_append: "entries h n (P @ Q) = entries h n P @ entries h (n + length P) Q"
  by (induction P arbitrary: n) (auto simp: entries_Nil entries_Cons)

lemma inheritSources_pick:
  assumes "\<forall>(s, vals)\<in>set srcs. \<forall>a\<in>set vals. a < length h0"
  shows "inheritSources srcs (h0 @ ex, m) =
     Inr ((h0 @ ex) @ map (copyOf h0) (pick h0 (set (map fst m)) (pairs srcs)),
          m @ entries h0 (length (h0 @ ex)) (pick h0 (set (map fst m)) (pairs srcs)))"
  using assms
proof (induction srcs arbitrary: ex m)
  case Nil
  then show ?case by (simp add: pairs_def entries_Nil)
next
  case (Cons sv srcs)
  obtain src vals where sv: "sv = (src, vals)" by (cases sv)
  let ?P = "pick h0 (set (map fst m)) (map (Pair src) vals)"
  let ?m1 = "m @ entries h0 (length (h0 @ ex)) ?P"
  have v: "\<forall>a\<in>set vals. a < length h0" using Cons.prems sv by auto
  have keys: "set (map fst ?m1) = (\<lambda>p. name (h0 ! snd p)) ` set ?P \<union> set (map fst m)"
    by (auto simp: map_fst_entries)
  have ih: "inheritSources srcs (h0 @ (ex @ map (copyOf h0) ?P), ?m1) =
     Inr ((h0 @ (ex @ map (copyOf h0) ?P)) @ map (copyOf h0) (pick h0 (set (map fst ?m1)) (pairs srcs)),
          ?m1 @ entries h0 (length (h0 @ (ex @ map (copyOf h0) ?P))) (pick h0 (set (map fst ?m1)) (pairs srcs)))"
    using Cons.prems by (intro Cons.IH) simp
  have pp: "pairs (sv # srcs) = map (Pair src) vals @ pairs srcs" by (simp add: pairs_def sv)
  have "inheritSources (sv # srcs) (h0 @ ex, m) = inheritSources srcs (h0 @ (ex @ map (copyOf h0) ?P), ?m1)"
    using inheritVals_pick[OF v, of src ex m] by (simp add: sv)
  also note ih
  finally show ?case
    unfolding pp pick_append keys by (simp add: entries_append add.assoc)
qed

lemma setInitial_distinct:
  assumes "\<forall>a\<in>set base. a < length h"
      and "distinct (map (\<lambda>a. name (h ! a)) base)"
      and "\<forall>a\<in>set base. name (h ! a) \<notin> set (map fst m)"
  shows "setInitial h base m = Inr (m @ map (\<lambda>a. (name (h ! a), a)) base)"
  using assms
proof (induction base arbitrary: m)
  case Nil
  then show ?case by simp
next
  case (Cons a base)
  have "setInitial h (a # base) m = setInitial h base (m @ [(name (h ! a), a)])"
    using Cons.prems by (simp add: load_def Map_set_fresh)
  also have "\<dots> = Inr ((m @ [(name (h ! a), a)]) @ map (\<lambda>a. (name (h ! a), a)) base)"
    using Cons.prems by (intro Cons.IH) (auto simp: image_iff)
  finally show ?case by simp
qed

lemma mergeByName_pick:
  assumes "\<forall>a\<in>set base. a < length h"
      and "\<forall>(s, vals)\<in>set srcs. \<forall>a\<in>set vals. a < length h"
      and "distinct (map (\<lambda>a. name (h ! a)) base)"
  shows "mergeByName h base srcs =
     Inr (h @ map (copyOf h) (pick h ((\<lambda>a. name (h ! a)) ` set base) (pairs srcs)),
          base @ [length h ..< length h + length (pick h ((\<lambda>a. name (h ! a)) ` set base) (pairs srcs))])"
proof -
  have s: "setInitial h base [] = Inr (map (\<lambda>a. (name (h ! a), a)) base)"
    using setInitial_distinct[OF assms(1) assms(3), of "[]"] by simp
  have k: "set (map fst (map (\<lambda>a. (name (h ! a), a)) base)) = (\<lambda>a. name (h ! a)) ` set base"
    by (auto simp: image_iff)
  show ?thesis
    using inheritSources_pick[OF assms(2), of "[]" "map (\<lambda>a. (name (h ! a), a)) base"]
    unfolding mergeByName_def s k
    by (simp add: Map_values_def map_snd_entries comp_def)
qed

lemma pick_notin: "p \<in> set (pick h K ps) \<Longrightarrow> name (h ! snd p) \<notin> K"
  by (induction h K ps rule: pick.induct) (auto split: if_splits)

lemma pick_distinct: "distinct (map (\<lambda>p. name (h ! snd p)) (pick h K ps))"
proof (induction h K ps rule: pick.induct)
  case (1 h K)
  then show ?case by simp
next
  case (2 h K s a ps)
  have "name (h ! a) \<notin> (\<lambda>p. name (h ! snd p)) ` set (pick h (insert (name (h ! a)) K) ps)"
  proof
    assume "name (h ! a) \<in> (\<lambda>p. name (h ! snd p)) ` set (pick h (insert (name (h ! a)) K) ps)"
    then obtain p where p: "p \<in> set (pick h (insert (name (h ! a)) K) ps)"
      and n: "name (h ! snd p) = name (h ! a)" by force
    from pick_notin[OF p] n show False by simp
  qed
  with 2 show ?case by auto
qed

lemma pick_first: "p \<in> set (pick h K ps) \<Longrightarrow> find (\<lambda>q. name (h ! snd q) = name (h ! snd p)) ps = Some p"
proof (induction h K ps rule: pick.induct)
  case (1 h K)
  then show ?case by simp
next
  case (2 h K s a ps)
  show ?case
  proof (cases "name (h ! a) \<in> K")
    case True
    then have "p \<in> set (pick h K ps)" using 2 by simp
    then have "name (h ! snd p) \<notin> K" by (rule pick_notin)
    then have "name (h ! a) \<noteq> name (h ! snd p)" using True by auto
    then show ?thesis using 2 True by simp
  next
    case False
    show ?thesis
    proof (cases "p = (s, a)")
      case True
      then show ?thesis by simp
    next
      case False2: False
      then have pin: "p \<in> set (pick h (insert (name (h ! a)) K) ps)" using 2(3) False by simp
      then have "name (h ! a) \<noteq> name (h ! snd p)" using pick_notin[OF pin] by auto
      then show ?thesis using 2(2)[OF False pin] by simp
    qed
  qed
qed

lemma pick_complete: "q \<in> set ps \<Longrightarrow> name (h ! snd q) \<notin> K \<Longrightarrow>
    \<exists>p\<in>set (pick h K ps). name (h ! snd p) = name (h ! snd q)"
proof (induction h K ps rule: pick.induct)
  case (1 h K)
  then show ?case by simp
next
  case (2 h K s a ps)
  then show ?case by (cases "name (h ! snd q) = name (h ! a)") (auto split: if_splits)
qed

lemma find_app: "find P (xs @ ys) = (case find P xs of None \<Rightarrow> find P ys | Some x \<Rightarrow> Some x)"
  by (induction xs) auto

lemma find_pairs: "find (\<lambda>q. name (h ! snd q) = n) (pairs srcs) = firstDefining h srcs n"
proof (induction srcs)
  case Nil
  then show ?case by (simp add: pairs_def)
next
  case (Cons sv srcs)
  obtain s vals where sv: "sv = (s, vals)" by (cases sv)
  have f: "find (\<lambda>q. name (h ! snd q) = n) (map (Pair s) vals) = map_option (Pair s) (find (\<lambda>a. name (h ! a) = n) vals)"
    by (induction vals) auto
  have pp: "pairs (sv # srcs) = map (Pair s) vals @ pairs srcs" by (simp add: pairs_def sv)
  show ?case unfolding pp using Cons
    by (auto simp: find_app f sv split: option.splits)
qed

text \<open>Four items for the examples: \<open>p\<close> of the element itself, and \<open>q\<close>, \<open>q\<close>, \<open>p\<close> of behaviors.\<close>

definition exP :: item where "exP = \<lparr>name = ''p'', inheritedFrom = None, detail = ''own''\<rparr>"
definition exQ2 :: item where "exQ2 = \<lparr>name = ''q'', inheritedFrom = None, detail = ''of B2''\<rparr>"
definition exQ3 :: item where "exQ3 = \<lparr>name = ''q'', inheritedFrom = None, detail = ''of B3''\<rparr>"
definition exP2 :: item where "exP2 = \<lparr>name = ''p'', inheritedFrom = None, detail = ''of B2''\<rparr>"

text \<open>
  C1, as amended. The claim speaks of every base list; the map is keyed by name, so of
  two base items of one name only the later survives, and the theorem asks for a base
  whose names are pairwise distinct. Then, for a store \<open>h\<close> holding every item that
  \<open>base\<close> and the sources refer to, \<open>mergeByName\<close> returns the base addresses
  unchanged and in order, followed by freshly allocated copies; the old part of the
  store is untouched; no name occurs twice in the result; every copy is the item of the
  first source defining its name, with \<open>inheritedFrom\<close> set to that source's name; and
  every name absent from the base that some source defines has its copy.
\<close>

theorem mergeByName_keeps_base_first_source_wins:
  assumes "\<forall>a\<in>set base. a < length h"
      and "\<forall>(s, vals)\<in>set srcs. \<forall>a\<in>set vals. a < length h"
      and "distinct (map (\<lambda>a. name (h ! a)) base)"
  shows "\<exists>h' new. mergeByName h base srcs = Inr (h', base @ new)
      \<and> take (length h) h' = h
      \<and> (\<forall>c\<in>set new. length h \<le> c \<and> c < length h')
      \<and> distinct (map (\<lambda>c. name (h' ! c)) (base @ new))
      \<and> (\<forall>c\<in>set new. \<exists>src a. firstDefining h srcs (name (h' ! c)) = Some (src, a)
            \<and> h' ! c = (h ! a)\<lparr>inheritedFrom := src\<rparr>)
      \<and> (\<forall>n. n \<notin> (\<lambda>a. name (h ! a)) ` set base \<longrightarrow> firstDefining h srcs n \<noteq> None
            \<longrightarrow> (\<exists>c\<in>set new. name (h' ! c) = n))"
proof -
  let ?K = "(\<lambda>a. name (h ! a)) ` set base"
  let ?P = "pick h ?K (pairs srcs)"
  let ?h' = "h @ map (copyOf h) ?P"
  let ?new = "[length h ..< length h + length ?P]"
  have run: "mergeByName h base srcs = Inr (?h', base @ ?new)"
    by (rule mergeByName_pick[OF assms])
  have old: "\<And>a. a < length h \<Longrightarrow> ?h' ! a = h ! a" by (simp add: nth_append)
  have new: "\<And>i. i < length ?P \<Longrightarrow> ?h' ! (length h + i) = copyOf h (?P ! i)"
    by (simp add: nth_append)
  have nm: "\<And>p. name (copyOf h p) = name (h ! snd p)" by (simp add: copyOf_def)
  have names_new: "map (\<lambda>c. name (?h' ! c)) ?new = map (\<lambda>p. name (h ! snd p)) ?P"
    by (rule nth_equalityI) (simp_all add: new nm)
  have names_base: "map (\<lambda>c. name (?h' ! c)) base = map (\<lambda>a. name (h ! a)) base"
    using assms(1) by (simp add: old)
  have d: "distinct (map (\<lambda>c. name (?h' ! c)) (base @ ?new))"
  proof -
    have "set (map (\<lambda>a. name (h ! a)) base) \<inter> set (map (\<lambda>p. name (h ! snd p)) ?P) = {}"
    proof (rule ccontr)
      assume "set (map (\<lambda>a. name (h ! a)) base) \<inter> set (map (\<lambda>p. name (h ! snd p)) ?P) \<noteq> {}"
      then obtain n where nK: "n \<in> ?K" and "n \<in> (\<lambda>p. name (h ! snd p)) ` set ?P" by auto
      then obtain p where p: "p \<in> set ?P" and np: "n = name (h ! snd p)" by blast
      from pick_notin[OF p] nK np show False by simp
    qed
    then show ?thesis
      unfolding map_append names_new names_base
      using assms(3) pick_distinct[of h ?K "pairs srcs"] by simp
  qed
  have first: "\<forall>c\<in>set ?new. \<exists>src a. firstDefining h srcs (name (?h' ! c)) = Some (src, a)
            \<and> ?h' ! c = (h ! a)\<lparr>inheritedFrom := src\<rparr>"
  proof
    fix c assume "c \<in> set ?new"
    then obtain i where i: "i < length ?P" and c: "c = length h + i"
      by (auto simp: nat_le_iff_add)
    have pin: "?P ! i \<in> set ?P" using i by simp
    have "firstDefining h srcs (name (h ! snd (?P ! i))) = Some (?P ! i)"
      using pick_first[OF pin] by (simp add: find_pairs)
    then show "\<exists>src a. firstDefining h srcs (name (?h' ! c)) = Some (src, a)
            \<and> ?h' ! c = (h ! a)\<lparr>inheritedFrom := src\<rparr>"
      unfolding c new[OF i] nm by (cases "?P ! i") (simp add: copyOf_def)
  qed
  have compl: "\<forall>n. n \<notin> ?K \<longrightarrow> firstDefining h srcs n \<noteq> None \<longrightarrow> (\<exists>c\<in>set ?new. name (?h' ! c) = n)"
  proof (intro allI impI)
    fix n assume nK: "n \<notin> ?K" and "firstDefining h srcs n \<noteq> None"
    then obtain q where "find (\<lambda>q. name (h ! snd q) = n) (pairs srcs) = Some q"
      by (auto simp: find_pairs)
    then have q: "q \<in> set (pairs srcs)" "name (h ! snd q) = n"
      by (auto simp: find_Some_iff)
    from pick_complete[OF q(1), of h ?K] nK q(2)
    obtain p where "p \<in> set ?P" "name (h ! snd p) = n" by auto
    then obtain i where i: "i < length ?P" "?P ! i = p" by (auto simp: in_set_conv_nth)
    have "length h + i \<in> set ?new" using i by simp
    moreover have "name (?h' ! (length h + i)) = n"
      unfolding new[OF i(1)] nm using i \<open>name (h ! snd p) = n\<close> by simp
    ultimately show "\<exists>c\<in>set ?new. name (?h' ! c) = n" by blast
  qed
  have bounds: "\<forall>c\<in>set ?new. length h \<le> c \<and> c < length ?h'" by simp
  have pre: "take (length h) ?h' = h" by simp
  show ?thesis using run pre bounds d first compl by blast
qed

text \<open>
  A run of C1: base \<open>[p]\<close>, source \<open>B2\<close> with \<open>[p, q]\<close>, source \<open>B3\<close> with
  \<open>[q]\<close>. The result is the base \<open>p\<close> and a copy of \<open>B2\<close>'s \<open>q\<close>.
\<close>

theorem mergeByName_keeps_base_first_source_wins_witness:
  "mergeByName [exP, exQ2, exQ3, exP2] [0] [(Some ''B2'', [3, 1]), (Some ''B3'', [2])]
     = Inr ([exP, exQ2, exQ3, exP2, exQ2\<lparr>inheritedFrom := Some ''B2''\<rparr>], [0, 4])
   \<and> (\<exists>h' new. mergeByName [exP, exQ2, exQ3, exP2] [0] [(Some ''B2'', [3, 1]), (Some ''B3'', [2])]
          = Inr (h', [0] @ new)
      \<and> take (length [exP, exQ2, exQ3, exP2]) h' = [exP, exQ2, exQ3, exP2]
      \<and> (\<forall>c\<in>set new. length [exP, exQ2, exQ3, exP2] \<le> c \<and> c < length h')
      \<and> distinct (map (\<lambda>c. name (h' ! c)) ([0] @ new))
      \<and> (\<forall>c\<in>set new. \<exists>src a.
            firstDefining [exP, exQ2, exQ3, exP2] [(Some ''B2'', [3, 1]), (Some ''B3'', [2])] (name (h' ! c)) = Some (src, a)
            \<and> h' ! c = ([exP, exQ2, exQ3, exP2] ! a)\<lparr>inheritedFrom := src\<rparr>)
      \<and> (\<forall>n. n \<notin> (\<lambda>a. name ([exP, exQ2, exQ3, exP2] ! a)) ` set [0]
            \<longrightarrow> firstDefining [exP, exQ2, exQ3, exP2] [(Some ''B2'', [3, 1]), (Some ''B3'', [2])] n \<noteq> None
            \<longrightarrow> (\<exists>c\<in>set new. name (h' ! c) = n)))"
proof
  show "mergeByName [exP, exQ2, exQ3, exP2] [0] [(Some ''B2'', [3, 1]), (Some ''B3'', [2])]
     = Inr ([exP, exQ2, exQ3, exP2, exQ2\<lparr>inheritedFrom := Some ''B2''\<rparr>], [0, 4])"
    by (simp add: mergeByName_def load_def alloc_def Map_has_def Map_values_def exP_def exQ2_def exQ3_def exP2_def)
next
  have v1: "\<forall>a\<in>set [0::nat]. a < length [exP, exQ2, exQ3, exP2]" by simp
  have v2: "\<forall>(s, vals)\<in>set [(Some ''B2'', [3, 1]), (Some ''B3'', [2::nat])]. \<forall>a\<in>set vals. a < length [exP, exQ2, exQ3, exP2]"
    by simp
  have v3: "distinct (map (\<lambda>a. name ([exP, exQ2, exQ3, exP2] ! a)) [0])" by simp
  show "\<exists>h' new. mergeByName [exP, exQ2, exQ3, exP2] [0] [(Some ''B2'', [3, 1]), (Some ''B3'', [2])]
          = Inr (h', [0] @ new)
      \<and> take (length [exP, exQ2, exQ3, exP2]) h' = [exP, exQ2, exQ3, exP2]
      \<and> (\<forall>c\<in>set new. length [exP, exQ2, exQ3, exP2] \<le> c \<and> c < length h')
      \<and> distinct (map (\<lambda>c. name (h' ! c)) ([0] @ new))
      \<and> (\<forall>c\<in>set new. \<exists>src a.
            firstDefining [exP, exQ2, exQ3, exP2] [(Some ''B2'', [3, 1]), (Some ''B3'', [2])] (name (h' ! c)) = Some (src, a)
            \<and> h' ! c = ([exP, exQ2, exQ3, exP2] ! a)\<lparr>inheritedFrom := src\<rparr>)
      \<and> (\<forall>n. n \<notin> (\<lambda>a. name ([exP, exQ2, exQ3, exP2] ! a)) ` set [0]
            \<longrightarrow> firstDefining [exP, exQ2, exQ3, exP2] [(Some ''B2'', [3, 1]), (Some ''B3'', [2])] n \<noteq> None
            \<longrightarrow> (\<exists>c\<in>set new. name (h' ! c) = n))"
    by (rule mergeByName_keeps_base_first_source_wins[OF v1 v2 v3])
qed

text \<open>
  C1 as stated fails for a base with two items of the same name: the second replaces
  the first in the map, and the item at address 0 is not in the result.
\<close>

theorem mergeByName_duplicate_base_counterexample:
  "mergeByName [exP, exP2] [0, 1] [] = Inr ([exP, exP2], [1]) \<and> (0::nat) \<notin> set [1::nat]"
  by (simp add: mergeByName_def load_def Map_values_def exP_def exP2_def)

section \<open>Flattening behaviors: each once, in the order of first encounter\<close>

text \<open>
  The behavior graph: the targets of a list of entries are the behaviors its entries
  resolve to, an edge leads from a behavior to each target of its own list, and the
  behaviors a list reaches are its targets and everything below them.
\<close>

definition targets :: "analysis \<Rightarrow> behavior_ref list \<Rightarrow> addr set" where
  "targets an bs = {b. \<exists>r\<in>set bs. lookupBehavior an r = Inr b}"

definition edges :: "descriptor_obj list \<Rightarrow> analysis \<Rightarrow> (addr \<times> addr) set" where
  "edges h an = {(a, b). a < length h \<and> b \<in> targets an (behaviors (h ! a))}"

definition reachable :: "descriptor_obj list \<Rightarrow> analysis \<Rightarrow> behavior_ref list \<Rightarrow> addr set" where
  "reachable h an bs = (edges h an)\<^sup>* `` targets an bs"

text \<open>
  All symbolic names resolve: every entry of the list, and of the list of every
  behavior reached from it, resolves to a behavior of the store.
\<close>

definition resolves :: "descriptor_obj list \<Rightarrow> analysis \<Rightarrow> behavior_ref list \<Rightarrow> bool" where
  "resolves h an bs = (\<forall>r\<in>set bs. \<exists>b. lookupBehavior an r = Inr b \<and> b < length h)"

definition allResolve :: "descriptor_obj list \<Rightarrow> analysis \<Rightarrow> behavior_ref list \<Rightarrow> bool" where
  "allResolve h an bs =
     (resolves h an bs \<and> (\<forall>a\<in>reachable h an bs. resolves h an (behaviors (h ! a))))"

lemmas rec_simps = getFlattenedAndResolvedBehaviors_rec.simps
lemmas rec_induct = getFlattenedAndResolvedBehaviors_rec.induct

declare getFlattenedAndResolvedBehaviors_rec.simps [simp del]

lemma rec_Nil [simp]: "getFlattenedAndResolvedBehaviors_rec h an [] vis = Inr vis"
  by (simp add: rec_simps)

lemma rec_Cons_Inr:
  assumes "getFlattenedAndResolvedBehaviors_rec h an (r # rest) vis = Inr out"
  obtains b where "lookupBehavior an r = Inr b" "b \<in> set vis"
      "getFlattenedAndResolvedBehaviors_rec h an rest vis = Inr out"
  | b mid where "lookupBehavior an r = Inr b" "b \<notin> set vis" "b < length h"
      "load h b = Inr (h ! b)"
      "getFlattenedAndResolvedBehaviors_rec h an (behaviors (h ! b)) (vis @ [b]) = Inr mid"
      "getFlattenedAndResolvedBehaviors_rec h an rest mid = Inr out"
  using assms
  by (auto simp: rec_simps load_def split: sum.splits if_splits)

lemma rec_extends:
  "getFlattenedAndResolvedBehaviors_rec h an bs vis = Inr out \<Longrightarrow>
   \<exists>new. out = vis @ new \<and> distinct new \<and> set new \<inter> set vis = {}"
proof (induction h an bs vis arbitrary: out rule: rec_induct)
  case (1 h an vis)
  then show ?case by simp
next
  case (2 h an r rest vis)
  from 2(4) show ?case
  proof (cases rule: rec_Cons_Inr)
    case (1 b)
    then show ?thesis using 2(1) by blast
  next
    case (2 b mid)
    from "2.IH"(2)[OF 2(1) 2(2) 2(4) 2(5)]
    obtain n1 where n1: "mid = (vis @ [b]) @ n1" "distinct n1" "set n1 \<inter> set (vis @ [b]) = {}"
      by blast
    from "2.IH"(3)[OF 2(1) 2(2) 2(4) 2(5) 2(6)]
    obtain n2 where n2: "out = mid @ n2" "distinct n2" "set n2 \<inter> set mid = {}"
      by blast
    have "out = vis @ (b # n1 @ n2)" using n1 n2 by simp
    moreover have "distinct (b # n1 @ n2)" using n1 n2 by auto
    moreover have "set (b # n1 @ n2) \<inter> set vis = {}" using n1 n2 2(2) by auto
    ultimately show ?thesis by blast
  qed
qed


lemma targets_Cons: "targets an (r # rest) = targets an [r] \<union> targets an rest"
  by (auto simp: targets_def)

lemma targets_single: "lookupBehavior an r = Inr b \<Longrightarrow> targets an [r] = {b}"
  by (auto simp: targets_def)

lemma reachable_Cons: "reachable h an (r # rest) = reachable h an [r] \<union> reachable h an rest"
  unfolding reachable_def by (subst targets_Cons) blast

lemma reachable_step:
  assumes "lookupBehavior an r = Inr b" "b < length h"
  shows "reachable h an (behaviors (h ! b)) \<subseteq> reachable h an [r]"
proof
  fix y assume "y \<in> reachable h an (behaviors (h ! b))"
  then obtain x where x: "x \<in> targets an (behaviors (h ! b))" and xy: "(x, y) \<in> (edges h an)\<^sup>*"
    by (auto simp: reachable_def)
  have "(b, x) \<in> edges h an" using x assms(2) by (simp add: edges_def)
  then have "(b, y) \<in> (edges h an)\<^sup>*" using xy by (rule converse_rtrancl_into_rtrancl)
  then show "y \<in> reachable h an [r]"
    unfolding reachable_def targets_single[OF assms(1)] by blast
qed

lemma reachable_root: "lookupBehavior an r = Inr b \<Longrightarrow> b \<in> reachable h an [r]"
  unfolding reachable_def by (auto simp: targets_single)

lemma rec_sound:
  "getFlattenedAndResolvedBehaviors_rec h an bs vis = Inr out \<Longrightarrow>
   set out \<subseteq> set vis \<union> reachable h an bs"
proof (induction h an bs vis arbitrary: out rule: rec_induct)
  case (1 h an vis)
  then show ?case by simp
next
  case (2 h an r rest vis)
  from 2(4) show ?case
  proof (cases rule: rec_Cons_Inr)
    case (1 b)
    then show ?thesis using 2(1)[OF 1(1) 1(2) 1(3)] by (subst reachable_Cons) blast
  next
    case (2 b mid)
    have m: "set mid \<subseteq> set (vis @ [b]) \<union> reachable h an (behaviors (h ! b))"
      by (rule "2.IH"(2)[OF 2(1) 2(2) 2(4) 2(5)])
    have o: "set out \<subseteq> set mid \<union> reachable h an rest"
      by (rule "2.IH"(3)[OF 2(1) 2(2) 2(4) 2(5) 2(6)])
    show ?thesis
      using m o reachable_step[OF 2(1) 2(3)] reachable_root[OF 2(1), of h]
      by (subst reachable_Cons) auto
  qed
qed

lemma rec_roots:
  "getFlattenedAndResolvedBehaviors_rec h an bs vis = Inr out \<Longrightarrow> targets an bs \<subseteq> set out"
proof (induction h an bs vis arbitrary: out rule: rec_induct)
  case (1 h an vis)
  then show ?case by (simp add: targets_def)
next
  case (2 h an r rest vis)
  from 2(4) show ?case
  proof (cases rule: rec_Cons_Inr)
    case (1 b)
    have "set vis \<subseteq> set out" using rec_extends[OF 1(3)] by auto
    then show ?thesis using 2(1)[OF 1(1) 1(2) 1(3)] 1(1,2)
      by (subst targets_Cons) (auto simp: targets_single)
  next
    case (2 b mid)
    have "set (vis @ [b]) \<subseteq> set mid" using rec_extends[OF 2(5)] by auto
    moreover have "set mid \<subseteq> set out" using rec_extends[OF 2(6)] by auto
    ultimately have "b \<in> set out" by auto
    then show ?thesis using "2.IH"(3)[OF 2(1) 2(2) 2(4) 2(5) 2(6)] 2(1)
      by (subst targets_Cons) (auto simp: targets_single)
  qed
qed

lemma rec_closes:
  "getFlattenedAndResolvedBehaviors_rec h an bs vis = Inr out \<Longrightarrow>
   x \<in> set out \<Longrightarrow> x \<notin> set vis \<Longrightarrow> (x, y) \<in> edges h an \<Longrightarrow> y \<in> set out"
proof (induction h an bs vis arbitrary: out rule: rec_induct)
  case (1 h an vis)
  then show ?case by simp
next
  case (2 h an r rest vis)
  from 2(4) show ?case
  proof (cases rule: rec_Cons_Inr)
    case (1 b)
    then show ?thesis using 2(1)[OF 1(1) 1(2) 1(3)] "2.prems" by blast
  next
    case (2 b mid)
    have mo: "set mid \<subseteq> set out" using rec_extends[OF 2(6)] by auto
    show ?thesis
    proof (cases "x \<in> set mid")
      case False
      show ?thesis
        by (rule "2.IH"(3)[OF 2(1) 2(2) 2(4) 2(5) 2(6) "2.prems"(2) False "2.prems"(4)])
    next
      case True
      show ?thesis
      proof (cases "x = b")
        case True
        then have "y \<in> targets an (behaviors (h ! b))" using "2.prems"(4) by (simp add: edges_def)
        then have "y \<in> set mid" using rec_roots[OF 2(5)] by auto
        then show ?thesis using mo by auto
      next
        case False
        then have "x \<notin> set (vis @ [b])" using "2.prems"(3) by simp
        from "2.IH"(2)[OF 2(1) 2(2) 2(4) 2(5) True this "2.prems"(4)]
        show ?thesis using mo by auto
      qed
    qed
  qed
qed

lemma allResolve_Cons:
  assumes "allResolve h an (r # rest)"
  shows "allResolve h an rest"
  using assms unfolding allResolve_def resolves_def
  by (subst (asm) reachable_Cons) auto

lemma allResolve_step:
  assumes "allResolve h an (r # rest)" "lookupBehavior an r = Inr b"
  shows "b < length h \<and> allResolve h an (behaviors (h ! b))"
proof -
  have bl: "b < length h" using assms by (auto simp: allResolve_def resolves_def)
  have br: "b \<in> reachable h an (r # rest)"
    using reachable_root[OF assms(2), of h] by (subst reachable_Cons) auto
  have sub: "reachable h an (behaviors (h ! b)) \<subseteq> reachable h an (r # rest)"
    using reachable_step[OF assms(2) bl] by (subst reachable_Cons) auto
  show ?thesis using assms(1) bl br sub unfolding allResolve_def by blast
qed

lemma rec_total:
  "allResolve h an bs \<Longrightarrow> \<exists>out. getFlattenedAndResolvedBehaviors_rec h an bs vis = Inr out"
proof (induction h an bs vis rule: rec_induct)
  case (1 h an vis)
  then show ?case by simp
next
  case (2 h an r rest vis)
  obtain b where b: "lookupBehavior an r = Inr b"
    using "2.prems" by (auto simp: allResolve_def resolves_def)
  note st = allResolve_step[OF "2.prems" b]
  note rs = allResolve_Cons[OF "2.prems"]
  show ?case
  proof (cases "b \<in> set vis")
    case True
    then show ?thesis using "2.IH"(1)[OF b True rs] b by (simp add: rec_simps)
  next
    case False
    have ld: "load h b = Inr (h ! b)" using st by (simp add: load_def)
    from "2.IH"(2)[OF b False ld] st
    obtain mid where mid: "getFlattenedAndResolvedBehaviors_rec h an (behaviors (h ! b)) (vis @ [b]) = Inr mid"
      by blast
    from "2.IH"(3)[OF b False ld mid rs]
    show ?thesis using b False ld mid by (simp add: rec_simps)
  qed
qed


text \<open>
  A set of behaviors closed under the edges. Starting the traversal with a closed set
  already resolved, or with its members removed, finds the same further behaviors in
  the same order.
\<close>

definition closed :: "descriptor_obj list \<Rightarrow> analysis \<Rightarrow> addr set \<Rightarrow> bool" where
  "closed h an C = (\<forall>x\<in>C. \<forall>y. (x, y) \<in> edges h an \<longrightarrow> y \<in> C)"

lemma closed_reachable:
  assumes "closed h an C" "targets an bs \<subseteq> C"
  shows "reachable h an bs \<subseteq> C"
proof
  fix y assume "y \<in> reachable h an bs"
  then obtain x where x: "x \<in> targets an bs" and xy: "(x, y) \<in> (edges h an)\<^sup>*"
    by (auto simp: reachable_def)
  from xy have "x \<in> C \<Longrightarrow> y \<in> C"
    by (induction rule: rtrancl_induct) (use assms(1) in \<open>auto simp: closed_def\<close>)
  then show "y \<in> C" using x assms(2) by auto
qed

lemma rec_inside:
  assumes "closed h an C" "targets an bs \<subseteq> C"
      and "getFlattenedAndResolvedBehaviors_rec h an bs v = Inr out"
  shows "filter (\<lambda>x. x \<notin> C) out = filter (\<lambda>x. x \<notin> C) v"
proof -
  obtain new where new: "out = v @ new" "set new \<inter> set v = {}"
    using rec_extends[OF assms(3)] by blast
  have "set out \<subseteq> set v \<union> C"
    using rec_sound[OF assms(3)] closed_reachable[OF assms(1,2)] by auto
  then have "set new \<subseteq> C" using new by auto
  then have "filter (\<lambda>x. x \<notin> C) new = []" by (auto simp: filter_empty_conv)
  then show ?thesis using new by simp
qed

lemma filter_eq_set:
  assumes "filter (\<lambda>x. x \<notin> C) xs = filter (\<lambda>x. x \<notin> C) ys"
  shows "x \<notin> C \<Longrightarrow> x \<in> set xs \<longleftrightarrow> x \<in> set ys"
proof -
  assume "x \<notin> C"
  then have "x \<in> set xs \<longleftrightarrow> x \<in> set (filter (\<lambda>x. x \<notin> C) xs)" by simp
  also have "\<dots> \<longleftrightarrow> x \<in> set (filter (\<lambda>x. x \<notin> C) ys)" using assms by simp
  also have "\<dots> \<longleftrightarrow> x \<in> set ys" using \<open>x \<notin> C\<close> by simp
  finally show ?thesis .
qed

lemma rec_skip_closed:
  "closed h an C \<Longrightarrow>
     getFlattenedAndResolvedBehaviors_rec h an bs vA = Inr outA \<Longrightarrow>
     getFlattenedAndResolvedBehaviors_rec h an bs vB = Inr outB \<Longrightarrow>
     C \<subseteq> set vA \<Longrightarrow>
     filter (\<lambda>x. x \<notin> C) vA = filter (\<lambda>x. x \<notin> C) vB \<Longrightarrow>
     filter (\<lambda>x. x \<notin> C) outA = filter (\<lambda>x. x \<notin> C) outB"
proof (induction h an bs vA arbitrary: outA outB vB rule: rec_induct)
  case (1 h an vis)
  then show ?case by simp
next
  case (2 h an r rest vA)
  note cl = "2.prems"(1)
  from "2.prems"(2) show ?case
  proof (cases rule: rec_Cons_Inr)
    case A: (1 b)
    from "2.prems"(3) show ?thesis
    proof (cases rule: rec_Cons_Inr)
      case B: (1 b')
      then have "b' = b" using A(1) by simp
      show ?thesis
        by (rule "2.IH"(1)[OF A(1) A(2) cl A(3) B(3) "2.prems"(4) "2.prems"(5)])
    next
      case B: (2 b' mid)
      then have bb: "b' = b" using A(1) by simp
      have bC: "b \<in> C"
        using filter_eq_set[OF "2.prems"(5), of b] A(2) B(2) bb by auto
      have "targets an (behaviors (h ! b)) \<subseteq> C"
        using cl bC B(3) bb by (auto simp: closed_def edges_def)
      from rec_inside[OF cl this B(5)[unfolded bb]]
      have "filter (\<lambda>x. x \<notin> C) mid = filter (\<lambda>x. x \<notin> C) vB" using bC by simp
      then have e: "filter (\<lambda>x. x \<notin> C) vA = filter (\<lambda>x. x \<notin> C) mid"
        using "2.prems"(5) by simp
      show ?thesis
        by (rule "2.IH"(1)[OF A(1) A(2) cl A(3) B(6) "2.prems"(4) e])
    qed
  next
    case A: (2 b midA)
    have bC: "b \<notin> C" using A(2) "2.prems"(4) by auto
    have bB: "b \<notin> set vB" using filter_eq_set[OF "2.prems"(5) bC] A(2) by simp
    from "2.prems"(3) show ?thesis
    proof (cases rule: rec_Cons_Inr)
      case B: (1 b')
      then show ?thesis using A(1) bB by simp
    next
      case B: (2 b' midB)
      then have bb: "b' = b" using A(1) by simp
      have e1: "filter (\<lambda>x. x \<notin> C) (vA @ [b]) = filter (\<lambda>x. x \<notin> C) (vB @ [b])"
        using "2.prems"(5) by simp
      have c1: "C \<subseteq> set (vA @ [b])" using "2.prems"(4) by auto
      have m: "filter (\<lambda>x. x \<notin> C) midA = filter (\<lambda>x. x \<notin> C) midB"
        by (rule "2.IH"(2)[OF A(1) A(2) A(4) cl A(5) B(5)[unfolded bb] c1 e1])
      have c2: "C \<subseteq> set midA" using rec_extends[OF A(5)] c1 by auto
      show ?thesis
        by (rule "2.IH"(3)[OF A(1) A(2) A(4) A(5) cl A(6) B(6) c2 m])
    qed
  qed
qed


lemma reachable_mono: "set bs' \<subseteq> set bs \<Longrightarrow> reachable h an bs' \<subseteq> reachable h an bs"
  unfolding reachable_def targets_def by blast

lemma allResolve_mono:
  assumes "set bs' \<subseteq> set bs" "allResolve h an bs"
  shows "allResolve h an bs'"
  using assms reachable_mono[OF assms(1), of h an]
  unfolding allResolve_def resolves_def by blast

lemma rec_append:
  "getFlattenedAndResolvedBehaviors_rec h an (bs1 @ bs2) vis =
     (case getFlattenedAndResolvedBehaviors_rec h an bs1 vis of
        Inl e \<Rightarrow> Inl e
      | Inr mid \<Rightarrow> getFlattenedAndResolvedBehaviors_rec h an bs2 mid)"
proof (induction h an bs1 vis rule: rec_induct)
  case (1 h an vis)
  then show ?case by simp
next
  case (2 h an r rest vis)
  then show ?case by (simp add: rec_simps split: sum.splits)
qed

lemma heap_resolves_allResolve:
  assumes "list_all (\<lambda>obj. resolves h an (behaviors obj)) h" "resolves h an bs"
  shows "allResolve h an bs"
proof -
  have all: "\<And>a. a < length h \<Longrightarrow> resolves h an (behaviors (h ! a))"
    using assms(1) by (simp add: list_all_length)
  have "closed h an {..<length h}"
    unfolding closed_def edges_def targets_def using all by (fastforce simp: resolves_def)
  moreover have "targets an bs \<subseteq> {..<length h}"
    using assms(2) by (fastforce simp: targets_def resolves_def)
  ultimately have "reachable h an bs \<subseteq> {..<length h}" by (rule closed_reachable)
  then show ?thesis unfolding allResolve_def using assms(2) all by auto
qed

text \<open>
  Taking a behavior out of the graph: the entries that resolve to \<open>b\<close> are dropped from a
  list, and from the list of every object of the store.
\<close>

definition dropEntries :: "analysis \<Rightarrow> addr \<Rightarrow> behavior_ref list \<Rightarrow> behavior_ref list" where
  "dropEntries an b bs = filter (\<lambda>r. lookupBehavior an r \<noteq> Inr b) bs"

definition storeWithout :: "analysis \<Rightarrow> addr \<Rightarrow> descriptor_obj list \<Rightarrow> descriptor_obj list" where
  "storeWithout an b h = map (\<lambda>obj. obj\<lparr>behaviors := dropEntries an b (behaviors obj)\<rparr>) h"

lemma load_storeWithout:
  "load (storeWithout an b h) x =
     (case load h x of Inl e \<Rightarrow> Inl e
      | Inr obj \<Rightarrow> Inr (obj\<lparr>behaviors := dropEntries an b (behaviors obj)\<rparr>))"
  by (simp add: load_def storeWithout_def)

text \<open>Entries that resolve to a behavior already met make no difference.\<close>

lemma rec_dropEntries:
  "b \<in> set vis \<Longrightarrow>
   getFlattenedAndResolvedBehaviors_rec (storeWithout an b h) an (dropEntries an b bs) vis
     = getFlattenedAndResolvedBehaviors_rec h an bs vis"
proof (induction h an bs vis rule: rec_induct)
  case (1 h an vis)
  then show ?case by (simp add: dropEntries_def)
next
  case (2 h an r rest vis)
  show ?case
  proof (cases "lookupBehavior an r")
    case (Inl e)
    then show ?thesis by (simp add: dropEntries_def rec_simps)
  next
    case (Inr x)
    show ?thesis
    proof (cases "x \<in> set vis")
      case True
      have rest: "getFlattenedAndResolvedBehaviors_rec (storeWithout an b h) an (dropEntries an b rest) vis
          = getFlattenedAndResolvedBehaviors_rec h an rest vis"
        by (rule "2.IH"(1)[OF Inr True "2.prems"])
      have "dropEntries an b (r # rest) = (if x = b then dropEntries an b rest
              else r # dropEntries an b rest)"
        using Inr by (simp add: dropEntries_def)
      then show ?thesis using Inr True rest by (simp add: rec_simps)
    next
      case False
      then have xb: "x \<noteq> b" using "2.prems" by auto
      then have keep: "dropEntries an b (r # rest) = r # dropEntries an b rest"
        using Inr by (simp add: dropEntries_def)
      show ?thesis
      proof (cases "load h x")
        case (Inl e)
        then show ?thesis using Inr False keep
          by (simp add: rec_simps load_storeWithout)
      next
        case obj: (Inr obj)
        have inner: "getFlattenedAndResolvedBehaviors_rec (storeWithout an b h) an
              (dropEntries an b (behaviors obj)) (vis @ [x])
            = getFlattenedAndResolvedBehaviors_rec h an (behaviors obj) (vis @ [x])"
          by (rule "2.IH"(2)[OF Inr False obj]) (use "2.prems" in simp)
        show ?thesis
        proof (cases "getFlattenedAndResolvedBehaviors_rec h an (behaviors obj) (vis @ [x])")
          case (Inl e)
          then show ?thesis using Inr False keep obj inner
            by (simp add: rec_simps load_storeWithout)
        next
          case mid: (Inr mid)
          have "b \<in> set mid" using rec_extends[OF mid] "2.prems" by auto
          then have "getFlattenedAndResolvedBehaviors_rec (storeWithout an b h) an
                (dropEntries an b rest) mid
              = getFlattenedAndResolvedBehaviors_rec h an rest mid"
            by (rule "2.IH"(3)[OF Inr False obj mid])
          then show ?thesis using Inr False keep obj inner mid
            by (simp add: rec_simps load_storeWithout)
        qed
      qed
    qed
  qed
qed

text \<open>A behavior that no entry resolves to is never met.\<close>

lemma rec_unreferenced:
  assumes "\<forall>r\<in>set bs. lookupBehavior an r \<noteq> Inr b"
    and "\<forall>obj\<in>set h. \<forall>r\<in>set (behaviors obj). lookupBehavior an r \<noteq> Inr b"
  shows "getFlattenedAndResolvedBehaviors_rec h an bs (b # vis)
     = (case getFlattenedAndResolvedBehaviors_rec h an bs vis of
          Inl e \<Rightarrow> Inl e | Inr out \<Rightarrow> Inr (b # out))"
  using assms
proof (induction h an bs vis rule: rec_induct)
  case (1 h an vis)
  then show ?case by simp
next
  case (2 h an r rest vis)
  have rest: "\<forall>r\<in>set rest. lookupBehavior an r \<noteq> Inr b" using "2.prems"(1) by simp
  show ?case
  proof (cases "lookupBehavior an r")
    case (Inl e)
    then show ?thesis by (simp add: rec_simps)
  next
    case (Inr x)
    then have xb: "x \<noteq> b" using "2.prems"(1) by auto
    show ?thesis
    proof (cases "x \<in> set vis")
      case True
      then show ?thesis using Inr "2.IH"(1)[OF Inr True rest "2.prems"(2)]
        by (simp add: rec_simps)
    next
      case False
      show ?thesis
      proof (cases "load h x")
        case (Inl e)
        then show ?thesis using Inr False xb by (simp add: rec_simps)
      next
        case obj: (Inr obj)
        then have "obj \<in> set h" by (auto simp: load_def split: if_splits)
        then have o: "\<forall>r\<in>set (behaviors obj). lookupBehavior an r \<noteq> Inr b"
          using "2.prems"(2) by blast
        note inner = "2.IH"(2)[OF Inr False obj o "2.prems"(2)]
        show ?thesis
        proof (cases "getFlattenedAndResolvedBehaviors_rec h an (behaviors obj) (vis @ [x])")
          case (Inl e)
          then show ?thesis using Inr False xb obj inner by (simp add: rec_simps)
        next
          case mid: (Inr mid)
          note "2.IH"(3)[OF Inr False obj mid rest "2.prems"(2)]
          then show ?thesis using Inr False xb obj inner mid by (simp add: rec_simps)
        qed
      qed
    qed
  qed
qed

lemma rec_below:
  assumes "b \<notin> set vis"
  shows "getFlattenedAndResolvedBehaviors_rec h an bs [b]
     = (case getFlattenedAndResolvedBehaviors_rec (storeWithout an b h) an (dropEntries an b bs) [] of
          Inl e \<Rightarrow> Inl e | Inr out \<Rightarrow> Inr (b # out))"
proof -
  have "getFlattenedAndResolvedBehaviors_rec h an bs [b]
      = getFlattenedAndResolvedBehaviors_rec (storeWithout an b h) an (dropEntries an b bs) [b]"
    by (rule rec_dropEntries[symmetric]) simp
  also have "\<dots> = (case getFlattenedAndResolvedBehaviors_rec (storeWithout an b h) an
                        (dropEntries an b bs) [] of
          Inl e \<Rightarrow> Inl e | Inr out \<Rightarrow> Inr (b # out))"
    by (rule rec_unreferenced) (auto simp: dropEntries_def storeWithout_def)
  finally show ?thesis .
qed

lemma rec_single:
  assumes "getFlattenedAndResolvedBehaviors_rec h an [r] [] = Inr out"
  shows "\<exists>b below. lookupBehavior an r = Inr b \<and> b < length h
      \<and> getFlattenedAndResolvedBehaviors_rec (storeWithout an b h) an
           (dropEntries an b (behaviors (h ! b))) [] = Inr below
      \<and> out = b # below"
  using assms
proof (cases rule: rec_Cons_Inr)
  case (1 b)
  then show ?thesis by simp
next
  case (2 b mid)
  have "mid = out" using 2(6) by simp
  then show ?thesis using 2 rec_below[of b "[]" h an "behaviors (h ! b)"]
    by (auto split: sum.splits)
qed

text \<open>
  C2. When all symbolic names resolve, flattening a behaviors list returns a list

  \<^item> without duplicates,
  \<^item> holding exactly the behaviors reached from the list,
  \<^item> that starts with the behavior of the first entry,
  \<^item> that, for a list of one entry, is the behavior of that entry followed by what its
    own list flattens to in the graph without that behavior, and
  \<^item> that, for every split of the list in two, is what the first part flattens to,
    followed by the behaviors the second part flattens to that the first did not
    already give, in their order.

  The last three say depth-first, first-encountered order, at every depth: a behavior
  comes before everything below it, its own list is gone through in list order before
  the entries that follow it, and what was met earlier is not repeated.
\<close>

theorem flatten_each_once_in_first_encounter_order:
  assumes "allResolve h an bs"
  shows "\<exists>out. getFlattenedAndResolvedBehaviors h bs an = Inr out
      \<and> distinct out
      \<and> set out = reachable h an bs
      \<and> (\<forall>r rest. bs = r # rest \<longrightarrow> (\<exists>b more. lookupBehavior an r = Inr b \<and> out = b # more))
      \<and> (\<forall>r. bs = [r] \<longrightarrow>
            (\<exists>b below. lookupBehavior an r = Inr b
               \<and> getFlattenedAndResolvedBehaviors (storeWithout an b h)
                    (dropEntries an b (behaviors (h ! b))) an = Inr below
               \<and> out = b # below))
      \<and> (\<forall>bs1 bs2. bs = bs1 @ bs2 \<longrightarrow>
            (\<exists>o1 o2. getFlattenedAndResolvedBehaviors h bs1 an = Inr o1
               \<and> getFlattenedAndResolvedBehaviors h bs2 an = Inr o2
               \<and> out = o1 @ filter (\<lambda>x. x \<notin> set o1) o2))"
proof -
  obtain out where out: "getFlattenedAndResolvedBehaviors_rec h an bs [] = Inr out"
    using rec_total[OF assms] by blast
  have d: "distinct out" using rec_extends[OF out] by auto
  have cl: "\<And>bs' o'. getFlattenedAndResolvedBehaviors_rec h an bs' [] = Inr o' \<Longrightarrow> closed h an (set o')"
    unfolding closed_def using rec_closes by fastforce
  have sub: "set out \<subseteq> reachable h an bs" using rec_sound[OF out] by simp
  have sup: "reachable h an bs \<subseteq> set out"
    by (rule closed_reachable[OF cl[OF out] rec_roots[OF out]])
  have first: "\<forall>r rest. bs = r # rest \<longrightarrow> (\<exists>b more. lookupBehavior an r = Inr b \<and> out = b # more)"
  proof (intro allI impI)
    fix r rest assume bs: "bs = r # rest"
    from out[unfolded bs] show "\<exists>b more. lookupBehavior an r = Inr b \<and> out = b # more"
    proof (cases rule: rec_Cons_Inr)
      case (1 b)
      then show ?thesis by simp
    next
      case (2 b mid)
      then show ?thesis using rec_extends[OF 2(5)] rec_extends[OF 2(6)] by auto
    qed
  qed
  have single: "\<forall>r. bs = [r] \<longrightarrow>
            (\<exists>b below. lookupBehavior an r = Inr b
               \<and> getFlattenedAndResolvedBehaviors (storeWithout an b h)
                    (dropEntries an b (behaviors (h ! b))) an = Inr below
               \<and> out = b # below)"
  proof (intro allI impI)
    fix r assume bs: "bs = [r]"
    from rec_single[OF out[unfolded bs]]
    show "\<exists>b below. lookupBehavior an r = Inr b
               \<and> getFlattenedAndResolvedBehaviors (storeWithout an b h)
                    (dropEntries an b (behaviors (h ! b))) an = Inr below
               \<and> out = b # below"
      unfolding getFlattenedAndResolvedBehaviors_def by blast
  qed
  have app: "\<forall>bs1 bs2. bs = bs1 @ bs2 \<longrightarrow>
            (\<exists>o1 o2. getFlattenedAndResolvedBehaviors h bs1 an = Inr o1
               \<and> getFlattenedAndResolvedBehaviors h bs2 an = Inr o2
               \<and> out = o1 @ filter (\<lambda>x. x \<notin> set o1) o2)"
  proof (intro allI impI)
    fix bs1 bs2 assume bs: "bs = bs1 @ bs2"
    obtain o1 where o1: "getFlattenedAndResolvedBehaviors_rec h an bs1 [] = Inr o1"
      using rec_total[OF allResolve_mono[OF _ assms], of bs1 "[]"] bs by auto
    obtain o2 where o2: "getFlattenedAndResolvedBehaviors_rec h an bs2 [] = Inr o2"
      using rec_total[OF allResolve_mono[OF _ assms], of bs2 "[]"] bs by auto
    have cont: "getFlattenedAndResolvedBehaviors_rec h an bs2 o1 = Inr out"
      using out o1 unfolding bs rec_append by simp
    obtain new where new: "out = o1 @ new" "set new \<inter> set o1 = {}"
      using rec_extends[OF cont] by blast
    have "filter (\<lambda>x. x \<notin> set o1) out = filter (\<lambda>x. x \<notin> set o1) o2"
      by (rule rec_skip_closed[OF cl[OF o1] cont o2]) simp_all
    moreover have "filter (\<lambda>x. x \<notin> set o1) out = new"
      using new by (auto simp: filter_id_conv)
    ultimately have "out = o1 @ filter (\<lambda>x. x \<notin> set o1) o2" using new by simp
    then show "\<exists>o1 o2. getFlattenedAndResolvedBehaviors h bs1 an = Inr o1
               \<and> getFlattenedAndResolvedBehaviors h bs2 an = Inr o2
               \<and> out = o1 @ filter (\<lambda>x. x \<notin> set o1) o2"
      using o1 o2 by (simp add: getFlattenedAndResolvedBehaviors_def)
  qed
  show ?thesis
    using out d sub sup first single app by (auto simp: getFlattenedAndResolvedBehaviors_def)
qed

text \<open>
  The diamond: \<open>B1\<close> (address 0) lists \<open>B2\<close> by name and \<open>B3\<close> directly, \<open>B2\<close>
  (address 1) lists \<open>B3\<close> (address 2) by name.
\<close>

definition diamond :: "descriptor_obj list" where
  "diamond =
     [\<lparr>tagName = None, className = Some ''B1'', properties = [], attributes = [], events = [],
       behaviors = [ByName ''B2'', Direct 2], polymer = True\<rparr>,
      \<lparr>tagName = None, className = Some ''B2'', properties = [], attributes = [], events = [],
       behaviors = [ByName ''B3''], polymer = True\<rparr>,
      \<lparr>tagName = None, className = Some ''B3'', properties = [], attributes = [], events = [],
       behaviors = [], polymer = True\<rparr>]"

definition diamond_analysis :: analysis where
  "diamond_analysis =
     \<lparr>descriptors = [], elementsByTagName = [], elementsByPackageDir = [],
      behaviorsByIdentifierName = [(''B1'', 0), (''B2'', 1), (''B3'', 2)],
      documentsByLocalPath = []\<rparr>"

text \<open>
  A deeper store, with a cycle: \<open>B0\<close> lists \<open>B1\<close> and \<open>B2\<close>, \<open>B1\<close> lists \<open>B3\<close>, and
  \<open>B3\<close> lists \<open>B0\<close> again.
\<close>

definition ladder :: "descriptor_obj list" where
  "ladder =
     [\<lparr>tagName = None, className = Some ''B0'', properties = [], attributes = [], events = [],
       behaviors = [Direct 1, Direct 2], polymer = True\<rparr>,
      \<lparr>tagName = None, className = Some ''B1'', properties = [], attributes = [], events = [],
       behaviors = [Direct 3], polymer = True\<rparr>,
      \<lparr>tagName = None, className = Some ''B2'', properties = [], attributes = [], events = [],
       behaviors = [], polymer = True\<rparr>,
      \<lparr>tagName = None, className = Some ''B3'', properties = [], attributes = [], events = [],
       behaviors = [Direct 0], polymer = True\<rparr>]"

text \<open>
  C2 on the diamond: flattening the list of \<open>B1\<close> gives \<open>[B2, B3]\<close>. On the deeper
  store, flattening \<open>[B0]\<close> gives \<open>B0\<close>, then \<open>B1\<close> with \<open>B3\<close> below it, and only then
  \<open>B2\<close>.
\<close>

theorem flatten_each_once_in_first_encounter_order_witness:
  "allResolve diamond diamond_analysis [ByName ''B2'', Direct 2]
   \<and> getFlattenedAndResolvedBehaviors diamond (behaviors (diamond ! 0)) diamond_analysis = Inr [1, 2]
   \<and> reachable diamond diamond_analysis [ByName ''B2'', Direct 2] = {1, 2}
   \<and> allResolve ladder diamond_analysis [Direct 0]
   \<and> getFlattenedAndResolvedBehaviors ladder [Direct 0] diamond_analysis = Inr [0, 1, 3, 2]
   \<and> getFlattenedAndResolvedBehaviors (storeWithout diamond_analysis 0 ladder)
        (dropEntries diamond_analysis 0 (behaviors (ladder ! 0))) diamond_analysis = Inr [1, 3, 2]"
proof -
  have look: "lookupBehavior diamond_analysis (ByName ''B2'') = Inr 1"
    "lookupBehavior diamond_analysis (ByName ''B3'') = Inr 2"
    "\<And>a. lookupBehavior diamond_analysis (Direct a) = Inr a"
    by (simp_all add: lookupBehavior_def getBehavior_def Map_get_def diamond_analysis_def)
  have wf: "allResolve diamond diamond_analysis [ByName ''B2'', Direct 2]"
    by (rule heap_resolves_allResolve) (simp_all add: resolves_def look, simp_all add: diamond_def look)
  have run: "getFlattenedAndResolvedBehaviors diamond [ByName ''B2'', Direct 2] diamond_analysis = Inr [1, 2]"
    by (simp add: getFlattenedAndResolvedBehaviors_def rec_simps look load_def diamond_def)
  from flatten_each_once_in_first_encounter_order[OF wf] run
  have r: "set [1, 2] = reachable diamond diamond_analysis [ByName ''B2'', Direct 2]" by auto
  have wf2: "allResolve ladder diamond_analysis [Direct 0]"
    by (rule heap_resolves_allResolve) (simp_all add: resolves_def look, simp_all add: ladder_def look)
  have run2: "getFlattenedAndResolvedBehaviors ladder [Direct 0] diamond_analysis = Inr [0, 1, 3, 2]"
    by (simp add: getFlattenedAndResolvedBehaviors_def rec_simps look load_def ladder_def)
  from flatten_each_once_in_first_encounter_order[OF wf2] run2 look(3)
  have below: "getFlattenedAndResolvedBehaviors (storeWithout diamond_analysis 0 ladder)
        (dropEntries diamond_analysis 0 (behaviors (ladder ! 0))) diamond_analysis = Inr [1, 3, 2]"
    by auto
  show ?thesis using wf run r wf2 run2 below by (simp add: diamond_def)
qed

section \<open>What a walk visits\<close>

text \<open>
  A walk is described by the calls it makes: one visit per node handed to the visitors,
  with the ancestors at that moment. \<open>Unknown\<close> stands for the entity whose class the
  walker does not know, where the walk stops with an error. The visits of a document
  are the document itself, those of its entities and those of its dependencies; every
  other entity is a single visit, and a \<open>null\<close> entity none.
\<close>

datatype visit =
    VisitDocument ddesc "descriptor list"
  | VisitInline descriptor "descriptor list"
  | VisitElement addr "descriptor list"
  | VisitBehavior addr "descriptor list"
  | VisitImport descriptor "descriptor list"
  | Unknown string

fun visits_document :: "descriptor list \<Rightarrow> ddesc \<Rightarrow> visit list"
  and visits_entity :: "descriptor list \<Rightarrow> descriptor \<Rightarrow> visit list"
  and visits_entities :: "descriptor list \<Rightarrow> descriptor list \<Rightarrow> visit list" where
  "visits_document ancestors (DD doc ents deps) =
     VisitDocument (DD doc ents deps) (ancestors @ [DocumentDescriptor (DD doc ents deps)])
       # visits_entities (ancestors @ [DocumentDescriptor (DD doc ents deps)]) ents
       @ visits_entities (ancestors @ [DocumentDescriptor (DD doc ents deps)]) deps"
| "visits_entity ancestors Null = []"
| "visits_entity ancestors (DocumentDescriptor dd) = visits_document ancestors dd"
| "visits_entity ancestors (InlineDocumentDescriptor ents deps) =
     [VisitInline (InlineDocumentDescriptor ents deps) ancestors]"
| "visits_entity ancestors (BehaviorDescriptor b) = [VisitBehavior b ancestors]"
| "visits_entity ancestors (ElementDescriptor e) = [VisitElement e ancestors]"
| "visits_entity ancestors (ImportDescriptor u) = [VisitImport (ImportDescriptor u) ancestors]"
| "visits_entity ancestors (Other rendering) = [Unknown rendering]"
| "visits_entities ancestors [] = []"
| "visits_entities ancestors (entity # rest) =
     visits_entity ancestors entity @ visits_entities ancestors rest"

text \<open>Handing one visit to the visitors, and a list of visits in order.\<close>

fun dispatch :: "'s visitor list \<Rightarrow> visit \<Rightarrow> 's \<Rightarrow> error + 's" where
  "dispatch visitors (VisitDocument dd ancestors) s =
     broadcast (\<lambda>v. handler (visitDocumentDescriptor v) dd ancestors) visitors s"
| "dispatch visitors (VisitInline dd ancestors) s =
     broadcast (\<lambda>v. handler (visitInlineDocumentDescriptor v) dd ancestors) visitors s"
| "dispatch visitors (VisitElement e ancestors) s =
     broadcast (\<lambda>v. handler (visitElement v) e ancestors) visitors s"
| "dispatch visitors (VisitBehavior b ancestors) s =
     broadcast (\<lambda>v. handler (visitBehavior v) b ancestors) visitors s"
| "dispatch visitors (VisitImport d ancestors) s =
     broadcast (\<lambda>v. handler (visitImportDescriptor v) d ancestors) visitors s"
| "dispatch visitors (Unknown rendering) s = Inl (UnknownKindOfDescriptor rendering)"

fun run :: "'s visitor list \<Rightarrow> visit list \<Rightarrow> 's \<Rightarrow> error + 's" where
  "run visitors [] s = Inr s"
| "run visitors (v # vs) s =
     (case dispatch visitors v s of Inl e \<Rightarrow> Inl e | Inr s' \<Rightarrow> run visitors vs s')"

definition with_ancestors :: "descriptor list \<Rightarrow> error + 's \<Rightarrow> error + (descriptor list \<times> 's)" where
  "with_ancestors ancestors r = (case r of Inl e \<Rightarrow> Inl e | Inr s \<Rightarrow> Inr (ancestors, s))"

lemma run_append:
  "run visitors (xs @ ys) s =
     (case run visitors xs s of Inl e \<Rightarrow> Inl e | Inr s' \<Rightarrow> run visitors ys s')"
  by (induction xs arbitrary: s) (auto split: sum.splits)

lemma walk_is_run:
  "walkDocumentDescriptor visitors dd st =
     with_ancestors (fst st) (run visitors (visits_document (fst st) dd) (snd st))"
  "walkEntity visitors entity st =
     with_ancestors (fst st) (run visitors (visits_entity (fst st) entity) (snd st))"
  "walkEntities visitors ents st =
     with_ancestors (fst st) (run visitors (visits_entities (fst st) ents) (snd st))"
proof (induction visitors dd st and visitors entity st and visitors ents st
       rule: walkDocumentDescriptor_walkEntity_walkEntities.induct)
  case (1 visitors doc ents deps st)
  show ?case
    apply (simp add: Let_def run_append with_ancestors_def split: sum.splits)
    apply (auto simp: 1 with_ancestors_def split: sum.splits)
    done
qed (auto simp: run_append with_ancestors_def walkInlineDocumentDescriptor_def walkBehavior_def
      walkElement_def walkImportDescriptor_def split: sum.splits)


definition visits :: "ddesc list \<Rightarrow> visit list" where
  "visits documents = concat (map (visits_document []) documents)"

lemma walkDocuments_is_run:
  "walkDocuments visitors documents st =
     with_ancestors (fst st)
       (run visitors (concat (map (visits_document (fst st)) documents)) (snd st))"
proof (induction documents arbitrary: st)
  case Nil
  then show ?case by (simp add: with_ancestors_def)
next
  case (Cons dd documents)
  show ?case
    by (cases "run visitors (visits_document (fst st) dd) (snd st)")
       (simp_all add: walk_is_run(1) Cons run_append with_ancestors_def)
qed

text \<open>A visitor that implements every callback and writes down each call.\<close>

definition Recorder :: "visit list visitor" where
  "Recorder =
     \<lparr>visitDocumentDescriptor = Some (\<lambda>dd ancestors log. Inr (log @ [VisitDocument dd ancestors])),
      visitInlineDocumentDescriptor = Some (\<lambda>d ancestors log. Inr (log @ [VisitInline d ancestors])),
      visitElement = Some (\<lambda>e ancestors log. Inr (log @ [VisitElement e ancestors])),
      visitBehavior = Some (\<lambda>b ancestors log. Inr (log @ [VisitBehavior b ancestors])),
      visitImportDescriptor = Some (\<lambda>d ancestors log. Inr (log @ [VisitImport d ancestors])),
      visitDone = None\<rparr>"

lemma walk_run:
  "walk visitors documents s =
     (case run visitors (visits documents) s of
        Inl e \<Rightarrow> Inl e
      | Inr s' \<Rightarrow> broadcast visitDone visitors s')"
  by (simp add: walk_def walkDocuments_is_run visits_def with_ancestors_def split: sum.splits)

lemma gather_run: "gather documents = run [PackageGatherer, ElementGatherer] (visits documents) gathered_empty"
  by (simp add: gather_def walk_run PackageGatherer_def ElementGatherer_def split: sum.splits)

text \<open>
  C3, as amended. For every forest and every list of visitors, the walk makes exactly
  the calls of \<open>visits\<close>, in order, and then calls \<open>done\<close>. The walker recurses into
  nested document descriptors only: an inline document descriptor is one call of
  \<open>visitInlineDocumentDescriptor\<close> and nothing of what it contains is visited, just as
  an element, a behavior or an import is one call.
\<close>

theorem walk_descends_into_documents_only:
  "walk visitors documents s =
     (case run visitors (visits documents) s of
        Inl e \<Rightarrow> Inl e
      | Inr s' \<Rightarrow> broadcast visitDone visitors s')
   \<and> visits_entity ancestors (DocumentDescriptor (DD doc ents deps)) =
       VisitDocument (DD doc ents deps) (ancestors @ [DocumentDescriptor (DD doc ents deps)])
         # visits_entities (ancestors @ [DocumentDescriptor (DD doc ents deps)]) ents
         @ visits_entities (ancestors @ [DocumentDescriptor (DD doc ents deps)]) deps
   \<and> visits_entity ancestors (InlineDocumentDescriptor ents deps) =
       [VisitInline (InlineDocumentDescriptor ents deps) ancestors]
   \<and> visits_entity ancestors (ElementDescriptor a) = [VisitElement a ancestors]
   \<and> visits_entity ancestors (BehaviorDescriptor a) = [VisitBehavior a ancestors]
   \<and> visits_entity ancestors (ImportDescriptor u) = [VisitImport (ImportDescriptor u) ancestors]"
  by (simp add: walk_run)

text \<open>
  C3 as stated fails: in a page whose inline document contains an element, the recorder
  is called for the page and for the inline document, never for the element, and the
  element gatherer records nothing.
\<close>

definition page_with_inline :: ddesc where
  "page_with_inline =
     DD (OtherDocument ''/a.html'') [InlineDocumentDescriptor [ElementDescriptor 0] []] []"

theorem walk_inline_contents_counterexample:
  "walk [Recorder] [page_with_inline] [] =
     Inr [VisitDocument page_with_inline [DocumentDescriptor page_with_inline],
          VisitInline (InlineDocumentDescriptor [ElementDescriptor 0] [])
            [DocumentDescriptor page_with_inline]]
   \<and> gather [page_with_inline] = Inr gathered_empty"
  by (simp add: walk_run gather_run visits_def page_with_inline_def Recorder_def handler_def
      PackageGatherer_def ElementGatherer_def PackageGatherer_visitDocumentDescriptor_def)

section \<open>The owning path of a visit\<close>

lemma getPathFromAncestors_nonempty: "getPathFromAncestors ancestors = Some p \<Longrightarrow> p \<noteq> []"
proof -
  assume a: "getPathFromAncestors ancestors = Some p"
  let ?ds = "filter hasUrl ancestors"
  from a have ne: "?ds \<noteq> []" and p: "p = urlOf (last ?ds)"
    by (auto simp: getPathFromAncestors_def Let_def split: if_splits)
  have "last ?ds \<in> set ?ds" using ne by (rule last_in_set)
  then have "hasUrl (last ?ds)" by simp
  then show "p \<noteq> []" unfolding p by (cases "last ?ds") auto
qed

section \<open>What the gatherers hold after a walk\<close>

declare dispatch.simps [simp del]

lemma dispatch_Unknown [simp]: "dispatch visitors (Unknown r) s = Inl (UnknownKindOfDescriptor r)"
  by (simp add: dispatch.simps)

lemma dispatch_gatherers [simp]:
  "dispatch [PackageGatherer, ElementGatherer] (VisitDocument dd ancestors) s =
     PackageGatherer_visitDocumentDescriptor dd ancestors s"
  "dispatch [PackageGatherer, ElementGatherer] (VisitInline d ancestors) s = Inr s"
  "dispatch [PackageGatherer, ElementGatherer] (VisitElement a ancestors) s =
     visitElement_gather a ancestors s"
  "dispatch [PackageGatherer, ElementGatherer] (VisitBehavior a ancestors) s =
     visitBehavior_gather a ancestors s"
  "dispatch [PackageGatherer, ElementGatherer] (VisitImport d ancestors) s = Inr s"
  by (auto simp: dispatch.simps PackageGatherer_def ElementGatherer_def handler_def split: sum.splits)

fun manifest_dir :: "visit \<Rightarrow> string set" where
  "manifest_dir (VisitDocument dd ancestors) =
     (if isJsonDocument (document dd) \<and> basename (document_url (document dd)) \<in> set packageFileNames
      then {dirname (document_url (document dd))} else {})"
| "manifest_dir v = {}"

lemma Map_get_set: "Map_get (Map_set m k v) k' = (if k' = k then Some v else Map_get m k')"
  by (induction m) (auto simp: Map_get_def)

text \<open>
  No directory, element or behavior is recorded twice, and the recorded elements and
  behaviors are those with a path.
\<close>

definition recorded_once :: "gathered \<Rightarrow> bool" where
  "recorded_once s =
     (distinct (packageDirs s)
      \<and> distinct (elementDescriptors s)
      \<and> (\<forall>e. e \<in> set (elementDescriptors s) \<longleftrightarrow> Map_get (elementPaths s) e \<noteq> None)
      \<and> distinct (behaviorDescriptors s)
      \<and> (\<forall>b. b \<in> set (behaviorDescriptors s) \<longleftrightarrow> Map_get (behaviorPaths s) b \<noteq> None))"

lemma dispatch_recorded_once:
  assumes "dispatch [PackageGatherer, ElementGatherer] v s = Inr s'" "recorded_once s"
  shows "recorded_once s' \<and> set (packageDirs s') = set (packageDirs s) \<union> manifest_dir v"
proof (cases v)
  case (VisitDocument dd ancestors)
  then show ?thesis using assms
    by (auto simp: PackageGatherer_visitDocumentDescriptor_def recorded_once_def Let_def
        split: if_splits)
next
  case (VisitElement a ancestors)
  then show ?thesis using assms
    by (auto simp: visitElement_gather_def recorded_once_def Map_get_set
        split: option.splits if_splits)
next
  case (VisitBehavior a ancestors)
  then show ?thesis using assms
    by (auto simp: visitBehavior_gather_def recorded_once_def Map_get_set
        split: option.splits if_splits)
qed (use assms in auto)

lemma run_recorded_once:
  "run [PackageGatherer, ElementGatherer] vs s = Inr s' \<Longrightarrow> recorded_once s \<Longrightarrow>
   recorded_once s' \<and> set (packageDirs s') = set (packageDirs s) \<union> (\<Union>v\<in>set vs. manifest_dir v)"
proof (induction vs arbitrary: s)
  case Nil
  then show ?case by simp
next
  case (Cons v vs)
  from Cons.prems(1) obtain s1 where
    s1: "dispatch [PackageGatherer, ElementGatherer] v s = Inr s1"
    and r: "run [PackageGatherer, ElementGatherer] vs s1 = Inr s'"
    by (auto split: sum.splits)
  from dispatch_recorded_once[OF s1 Cons.prems(2)] Cons.IH[OF r]
  show ?case by auto
qed

lemma gather_recorded_once:
  assumes "gather documents = Inr g"
  shows "recorded_once g" "set (packageDirs g) = (\<Union>v\<in>set (visits documents). manifest_dir v)"
  using run_recorded_once[OF assms[unfolded gather_run]]
  by (auto simp: recorded_once_def gathered_empty_def Map_get_def)

text \<open>
  C8, as amended. After a walk that succeeds, the package directories have no
  duplicates, and they are exactly the directories of the visited document descriptors
  whose document is a \<open>JsonDocument\<close> and whose url has the base name
  \<open>package.json\<close> or \<open>bower.json\<close>.
\<close>

theorem package_dirs_of_json_manifests:
  assumes "gather documents = Inr g"
  shows "distinct (packageDirs g)
     \<and> (\<forall>dd ancestors. VisitDocument dd ancestors \<in> set (visits documents)
            \<and> isJsonDocument (document dd)
            \<and> basename (document_url (document dd)) \<in> set packageFileNames
          \<longrightarrow> dirname (document_url (document dd)) \<in> set (packageDirs g))
     \<and> (\<forall>dir\<in>set (packageDirs g). \<exists>dd ancestors. VisitDocument dd ancestors \<in> set (visits documents)
            \<and> isJsonDocument (document dd)
            \<and> basename (document_url (document dd)) \<in> set packageFileNames
            \<and> dir = dirname (document_url (document dd)))"
proof -
  have d: "distinct (packageDirs g)"
    using gather_recorded_once(1)[OF assms] by (simp add: recorded_once_def)
  have s: "set (packageDirs g) = (\<Union>v\<in>set (visits documents). manifest_dir v)"
    by (rule gather_recorded_once(2)[OF assms])
  have fwd: "\<forall>dd ancestors. VisitDocument dd ancestors \<in> set (visits documents)
            \<and> isJsonDocument (document dd)
            \<and> basename (document_url (document dd)) \<in> set packageFileNames
          \<longrightarrow> dirname (document_url (document dd)) \<in> set (packageDirs g)"
  proof (intro allI impI)
    fix dd ancestors
    assume a: "VisitDocument dd ancestors \<in> set (visits documents)
            \<and> isJsonDocument (document dd)
            \<and> basename (document_url (document dd)) \<in> set packageFileNames"
    then have "dirname (document_url (document dd)) \<in> manifest_dir (VisitDocument dd ancestors)"
      by simp
    then show "dirname (document_url (document dd)) \<in> set (packageDirs g)"
      unfolding s using a by blast
  qed
  have bwd: "\<forall>dir\<in>set (packageDirs g). \<exists>dd ancestors. VisitDocument dd ancestors \<in> set (visits documents)
            \<and> isJsonDocument (document dd)
            \<and> basename (document_url (document dd)) \<in> set packageFileNames
            \<and> dir = dirname (document_url (document dd))"
  proof
    fix dir assume "dir \<in> set (packageDirs g)"
    then obtain v where v: "v \<in> set (visits documents)" "dir \<in> manifest_dir v"
      unfolding s by blast
    show "\<exists>dd ancestors. VisitDocument dd ancestors \<in> set (visits documents)
            \<and> isJsonDocument (document dd)
            \<and> basename (document_url (document dd)) \<in> set packageFileNames
            \<and> dir = dirname (document_url (document dd))"
    proof (cases v)
      case (VisitDocument dd ancestors)
      with v(2) have "isJsonDocument (document dd)
            \<and> basename (document_url (document dd)) \<in> set packageFileNames
            \<and> dir = dirname (document_url (document dd))"
        by (simp split: if_splits)
      then show ?thesis using v(1) VisitDocument by blast
    qed (use v(2) in simp_all)
  qed
  show ?thesis using d fwd bwd by blast
qed


text \<open>C8 on three manifests, two of them in the same directory.\<close>

definition manifests :: "ddesc list" where
  "manifests =
     [DD (JsonDocument ''/a/package.json'') [] [],
      DD (JsonDocument ''/a/b/bower.json'') [] [],
      DD (JsonDocument ''/a/bower.json'') [] []]"

theorem package_dirs_of_json_manifests_witness:
  "gather manifests = Inr (gathered_empty\<lparr>packageDirs := [''/a'', ''/a/b'']\<rparr>)
   \<and> distinct (packageDirs (gathered_empty\<lparr>packageDirs := [''/a'', ''/a/b'']\<rparr>))
   \<and> dirname ''/a/b/bower.json'' \<in> set (packageDirs (gathered_empty\<lparr>packageDirs := [''/a'', ''/a/b'']\<rparr>))"
proof -
  have run: "gather manifests = Inr (gathered_empty\<lparr>packageDirs := [''/a'', ''/a/b'']\<rparr>)"
    by (simp add: gather_run visits_def manifests_def PackageGatherer_visitDocumentDescriptor_def
        basename_def dirname_def packageFileNames_def gathered_empty_def)
  have v: "VisitDocument (DD (JsonDocument ''/a/b/bower.json'') [] [])
             [DocumentDescriptor (DD (JsonDocument ''/a/b/bower.json'') [] [])]
           \<in> set (visits manifests)"
    by (simp add: visits_def manifests_def)
  have b: "basename (document_url (document (DD (JsonDocument ''/a/b/bower.json'') [] [])))
           \<in> set packageFileNames"
    by (simp add: basename_def packageFileNames_def)
  from package_dirs_of_json_manifests[OF run] v b
  have "distinct (packageDirs (gathered_empty\<lparr>packageDirs := [''/a'', ''/a/b'']\<rparr>))
     \<and> dirname (document_url (document (DD (JsonDocument ''/a/b/bower.json'') [] [])))
          \<in> set (packageDirs (gathered_empty\<lparr>packageDirs := [''/a'', ''/a/b'']\<rparr>))"
    by (metis isJsonDocument.simps(1) ddesc.sel(1))
  then show ?thesis using run by simp
qed

text \<open>
  C8 as stated fails for a document that is not a \<open>JsonDocument\<close>: it is visited, its
  base name is \<open>package.json\<close>, and no directory is recorded.
\<close>

theorem package_dirs_not_json_counterexample:
  "gather [DD (OtherDocument ''/a/package.json'') [] []] = Inr gathered_empty
   \<and> packageDirs gathered_empty = []
   \<and> VisitDocument (DD (OtherDocument ''/a/package.json'') [] [])
        [DocumentDescriptor (DD (OtherDocument ''/a/package.json'') [] [])]
      \<in> set (visits [DD (OtherDocument ''/a/package.json'') [] []])
   \<and> basename (url (DD (OtherDocument ''/a/package.json'') [] [])) \<in> set packageFileNames"
  by (simp add: gather_run visits_def PackageGatherer_visitDocumentDescriptor_def url_def
      basename_def packageFileNames_def gathered_empty_def)

section \<open>What the element gatherer records: each descriptor once, at one path\<close>

text \<open>
  The elements and the behaviors a list of visits hands to the gatherer, in order, and
  the first occurrences of a list: each value once, where it first stands.
\<close>

fun elementOf :: "visit \<Rightarrow> addr list" where
  "elementOf (VisitElement e ancestors) = [e]"
| "elementOf v = []"

fun behaviorOf :: "visit \<Rightarrow> addr list" where
  "behaviorOf (VisitBehavior b ancestors) = [b]"
| "behaviorOf v = []"

definition elementsVisited :: "visit list \<Rightarrow> addr list" where
  "elementsVisited vs = concat (map elementOf vs)"

definition behaviorsVisited :: "visit list \<Rightarrow> addr list" where
  "behaviorsVisited vs = concat (map behaviorOf vs)"

fun firsts :: "'a list \<Rightarrow> 'a list" where
  "firsts [] = []"
| "firsts (x # xs) = x # filter (\<lambda>y. y \<noteq> x) (firsts xs)"

text \<open>
  What the element gatherer holds after the visits \<open>vs\<close>: the first occurrences of the
  visited elements and behaviors, each with the owning path of every one of its visits.
\<close>

definition holds :: "visit list \<Rightarrow> gathered \<Rightarrow> bool" where
  "holds vs s =
     (elementDescriptors s = firsts (elementsVisited vs)
      \<and> behaviorDescriptors s = firsts (behaviorsVisited vs)
      \<and> (\<forall>d ancestors. VisitElement d ancestors \<in> set vs \<longrightarrow>
            getPathFromAncestors ancestors \<noteq> None
            \<and> Map_get (elementPaths s) d = getPathFromAncestors ancestors)
      \<and> (\<forall>d. d \<notin> set (elementsVisited vs) \<longrightarrow> Map_get (elementPaths s) d = None)
      \<and> (\<forall>d ancestors. VisitBehavior d ancestors \<in> set vs \<longrightarrow>
            getPathFromAncestors ancestors \<noteq> None
            \<and> Map_get (behaviorPaths s) d = getPathFromAncestors ancestors)
      \<and> (\<forall>d. d \<notin> set (behaviorsVisited vs) \<longrightarrow> Map_get (behaviorPaths s) d = None))"

lemma set_firsts [simp]: "set (firsts xs) = set xs"
  by (induction xs) auto

lemma distinct_firsts [simp]: "distinct (firsts xs)"
  by (induction xs) auto

lemma firsts_snoc: "firsts (xs @ [x]) = (if x \<in> set xs then firsts xs else firsts xs @ [x])"
  by (induction xs) auto

lemma elementsVisited_iff:
  "d \<in> set (elementsVisited vs) \<longleftrightarrow> (\<exists>ancestors. VisitElement d ancestors \<in> set vs)"
proof (induction vs)
  case Nil
  then show ?case by (simp add: elementsVisited_def)
next
  case (Cons v vs)
  then show ?case by (cases v) (auto simp: elementsVisited_def)
qed

lemma behaviorsVisited_iff:
  "d \<in> set (behaviorsVisited vs) \<longleftrightarrow> (\<exists>ancestors. VisitBehavior d ancestors \<in> set vs)"
proof (induction vs)
  case Nil
  then show ?case by (simp add: behaviorsVisited_def)
next
  case (Cons v vs)
  then show ?case by (cases v) (auto simp: behaviorsVisited_def)
qed

lemma visited_snoc:
  "elementsVisited (vs @ [v]) = elementsVisited vs @ elementOf v"
  "behaviorsVisited (vs @ [v]) = behaviorsVisited vs @ behaviorOf v"
  by (simp_all add: elementsVisited_def behaviorsVisited_def)

lemma dispatch_holds:
  assumes "dispatch [PackageGatherer, ElementGatherer] v s = Inr s'" "holds vs s"
  shows "holds (vs @ [v]) s'"
proof (cases v)
  case (VisitDocument dd ancestors)
  then have "elementDescriptors s' = elementDescriptors s \<and> elementPaths s' = elementPaths s
      \<and> behaviorDescriptors s' = behaviorDescriptors s \<and> behaviorPaths s' = behaviorPaths s"
    using assms(1)
    by (auto simp: PackageGatherer_visitDocumentDescriptor_def Let_def split: if_splits)
  then show ?thesis using assms(2) VisitDocument
    by (simp add: holds_def visited_snoc)
next
  case (VisitInline d ancestors)
  then show ?thesis using assms by (simp add: holds_def visited_snoc)
next
  case (VisitElement d ancestors)
  from assms(1) obtain p where p: "getPathFromAncestors ancestors = Some p"
    unfolding VisitElement by (auto simp: visitElement_gather_def split: option.splits)
  show ?thesis
  proof (cases "Map_get (elementPaths s) d")
    case None
    then have new: "d \<notin> set (elementsVisited vs)"
      using assms(2) unfolding holds_def elementsVisited_iff by force
    have s': "s' = s\<lparr>elementPaths := Map_set (elementPaths s) d p,
                     elementDescriptors := elementDescriptors s @ [d]\<rparr>"
      using assms(1) p None unfolding VisitElement
      by (auto simp: visitElement_gather_def split: if_splits)
    have never: "\<And>a. VisitElement d a \<notin> set vs"
      using new unfolding elementsVisited_iff by blast
    show ?thesis using assms(2) new never p unfolding VisitElement s' holds_def
      by (auto simp: visited_snoc firsts_snoc Map_get_set)
  next
    case (Some q)
    then have old: "d \<in> set (elementsVisited vs)"
      using assms(2) unfolding holds_def by force
    have s': "s' = s" and q: "q = p"
      using assms(1) p Some unfolding VisitElement
      by (auto simp: visitElement_gather_def split: if_splits)
    show ?thesis using assms(2) old p Some q unfolding VisitElement s' holds_def
      by (auto simp: visited_snoc firsts_snoc)
  qed
next
  case (VisitBehavior d ancestors)
  from assms(1) obtain p where p: "getPathFromAncestors ancestors = Some p"
    unfolding VisitBehavior by (auto simp: visitBehavior_gather_def split: option.splits)
  show ?thesis
  proof (cases "Map_get (behaviorPaths s) d")
    case None
    then have new: "d \<notin> set (behaviorsVisited vs)"
      using assms(2) unfolding holds_def behaviorsVisited_iff by force
    have s': "s' = s\<lparr>behaviorPaths := Map_set (behaviorPaths s) d p,
                     behaviorDescriptors := behaviorDescriptors s @ [d]\<rparr>"
      using assms(1) p None unfolding VisitBehavior
      by (auto simp: visitBehavior_gather_def split: if_splits)
    have never: "\<And>a. VisitBehavior d a \<notin> set vs"
      using new unfolding behaviorsVisited_iff by blast
    show ?thesis using assms(2) new never p unfolding VisitBehavior s' holds_def
      by (auto simp: visited_snoc firsts_snoc Map_get_set)
  next
    case (Some q)
    then have old: "d \<in> set (behaviorsVisited vs)"
      using assms(2) unfolding holds_def by force
    have s': "s' = s" and q: "q = p"
      using assms(1) p Some unfolding VisitBehavior
      by (auto simp: visitBehavior_gather_def split: if_splits)
    show ?thesis using assms(2) old p Some q unfolding VisitBehavior s' holds_def
      by (auto simp: visited_snoc firsts_snoc)
  qed
next
  case (VisitImport d ancestors)
  then show ?thesis using assms by (simp add: holds_def visited_snoc)
next
  case (Unknown r)
  then show ?thesis using assms by simp
qed

lemma run_holds:
  "run [PackageGatherer, ElementGatherer] vs gathered_empty = Inr s \<Longrightarrow> holds vs s"
proof (induction vs arbitrary: s rule: rev_induct)
  case Nil
  then show ?case
    by (auto simp: holds_def gathered_empty_def elementsVisited_def behaviorsVisited_def Map_get_def)
next
  case (snoc v vs)
  from snoc.prems obtain s0 where
    s0: "run [PackageGatherer, ElementGatherer] vs gathered_empty = Inr s0"
    and d: "dispatch [PackageGatherer, ElementGatherer] v s0 = Inr s"
    by (auto simp: run_append split: sum.splits)
  show ?case by (rule dispatch_holds[OF d snoc.IH[OF s0]])
qed

lemma distinct_paths_message:
  "sublist path (message (DistinctPaths d path recorded))"
  "sublist recorded (message (DistinctPaths d path recorded))"
proof -
  have "message (DistinctPaths d path recorded) =
      (''Found element '' @ objectObject @ '' at distinct paths: '') @ path @ ('' and '' @ recorded)"
    by simp
  then show "sublist path (message (DistinctPaths d path recorded))"
    unfolding sublist_def by blast
  have "message (DistinctPaths d path recorded) =
      (''Found element '' @ objectObject @ '' at distinct paths: '' @ path @ '' and '') @ recorded @ []"
    by simp
  then show "sublist recorded (message (DistinctPaths d path recorded))"
    unfolding sublist_def by blast
qed

lemma run_stops:
  assumes "run visitors pre s0 = Inr s" "dispatch visitors v s = Inl e"
  shows "run visitors (pre @ v # post) s0 = Inl e"
  using assms by (simp add: run_append)

lemma element_again:
  assumes pre: "run [PackageGatherer, ElementGatherer] pre gathered_empty = Inr s"
    and path: "getPathFromAncestors ancestors = Some path"
    and seen: "VisitElement d earlier \<in> set pre" "getPathFromAncestors earlier = Some q"
  shows "q = path \<Longrightarrow> visitElement_gather d ancestors s = Inr s"
    and "q \<noteq> path \<Longrightarrow> visitElement_gather d ancestors s = Inl (DistinctPaths d path q)"
proof -
  have "Map_get (elementPaths s) d = Some q"
    using run_holds[OF pre] seen unfolding holds_def by metis
  moreover have "path \<noteq> []" by (rule getPathFromAncestors_nonempty[OF path])
  ultimately show "q = path \<Longrightarrow> visitElement_gather d ancestors s = Inr s"
    and "q \<noteq> path \<Longrightarrow> visitElement_gather d ancestors s = Inl (DistinctPaths d path q)"
    using path by (simp_all add: visitElement_gather_def)
qed

lemma behavior_again:
  assumes pre: "run [PackageGatherer, ElementGatherer] pre gathered_empty = Inr s"
    and path: "getPathFromAncestors ancestors = Some path"
    and seen: "VisitBehavior d earlier \<in> set pre" "getPathFromAncestors earlier = Some q"
  shows "q = path \<Longrightarrow> visitBehavior_gather d ancestors s = Inr s"
    and "q \<noteq> path \<Longrightarrow> visitBehavior_gather d ancestors s = Inl (DistinctPaths d path q)"
proof -
  have "Map_get (behaviorPaths s) d = Some q"
    using run_holds[OF pre] seen unfolding holds_def by metis
  moreover have "path \<noteq> []" by (rule getPathFromAncestors_nonempty[OF path])
  ultimately show "q = path \<Longrightarrow> visitBehavior_gather d ancestors s = Inr s"
    and "q \<noteq> path \<Longrightarrow> visitBehavior_gather d ancestors s = Inl (DistinctPaths d path q)"
    using path by (simp_all add: visitBehavior_gather_def)
qed

lemma element_first:
  assumes pre: "run [PackageGatherer, ElementGatherer] pre gathered_empty = Inr s"
    and path: "getPathFromAncestors ancestors = Some path"
    and new: "\<forall>earlier. VisitElement d earlier \<notin> set pre"
  shows "\<exists>s'. visitElement_gather d ancestors s = Inr s'
      \<and> elementDescriptors s' = elementDescriptors s @ [d]
      \<and> Map_get (elementPaths s') d = Some path"
proof -
  have "Map_get (elementPaths s) d = None"
    using run_holds[OF pre] new unfolding holds_def elementsVisited_iff by blast
  moreover have "path \<noteq> []" by (rule getPathFromAncestors_nonempty[OF path])
  ultimately show ?thesis using path by (simp add: visitElement_gather_def Map_get_set)
qed

lemma behavior_first:
  assumes pre: "run [PackageGatherer, ElementGatherer] pre gathered_empty = Inr s"
    and path: "getPathFromAncestors ancestors = Some path"
    and new: "\<forall>earlier. VisitBehavior d earlier \<notin> set pre"
  shows "\<exists>s'. visitBehavior_gather d ancestors s = Inr s'
      \<and> behaviorDescriptors s' = behaviorDescriptors s @ [d]
      \<and> Map_get (behaviorPaths s') d = Some path"
proof -
  have "Map_get (behaviorPaths s) d = None"
    using run_holds[OF pre] new unfolding holds_def behaviorsVisited_iff by blast
  moreover have "path \<noteq> []" by (rule getPathFromAncestors_nonempty[OF path])
  ultimately show ?thesis using path by (simp add: visitBehavior_gather_def Map_get_set)
qed

text \<open>
  C6. Walk a forest with the gatherers.

  \<^item> When the walk succeeds, the recorded elements are the first occurrences of the
    visited elements: each once, in first-seen order, and every visit of an element has
    the owning path recorded for it. The same holds for behaviors.
  \<^item> At a visit of an element \<open>d\<close> with owning path \<open>path\<close>, reached without error,
    where \<open>d\<close> was visited earlier with owning path \<open>q\<close>: when \<open>q = path\<close> the visit
    leaves the gatherer as it is, and otherwise the whole walk fails with the error of
    \<open>path\<close> and \<open>q\<close>, whose message contains both. The same holds for behaviors.
  \<^item> At the first visit of an element or behavior, it is added at the end of the list
    and its path recorded.
\<close>

theorem gatherer_records_once_or_reports_both_paths:
  "(\<forall>g. gather documents = Inr g \<longrightarrow>
        elementDescriptors g = firsts (elementsVisited (visits documents))
      \<and> behaviorDescriptors g = firsts (behaviorsVisited (visits documents))
      \<and> distinct (elementDescriptors g) \<and> distinct (behaviorDescriptors g)
      \<and> (\<forall>d ancestors. VisitElement d ancestors \<in> set (visits documents) \<longrightarrow>
            Map_get (elementPaths g) d = getPathFromAncestors ancestors)
      \<and> (\<forall>d ancestors. VisitBehavior d ancestors \<in> set (visits documents) \<longrightarrow>
            Map_get (behaviorPaths g) d = getPathFromAncestors ancestors))
   \<and> (\<forall>pre d ancestors post s path.
        visits documents = pre @ VisitElement d ancestors # post
        \<and> run [PackageGatherer, ElementGatherer] pre gathered_empty = Inr s
        \<and> getPathFromAncestors ancestors = Some path \<longrightarrow>
          (\<forall>earlier q. VisitElement d earlier \<in> set pre \<and> getPathFromAncestors earlier = Some q \<longrightarrow>
             (if q = path then visitElement_gather d ancestors s = Inr s
              else visitElement_gather d ancestors s = Inl (DistinctPaths d path q)
                 \<and> gather documents = Inl (DistinctPaths d path q)
                 \<and> sublist path (message (DistinctPaths d path q))
                 \<and> sublist q (message (DistinctPaths d path q))))
        \<and> ((\<forall>earlier. VisitElement d earlier \<notin> set pre) \<longrightarrow>
             (\<exists>s'. visitElement_gather d ancestors s = Inr s'
                \<and> elementDescriptors s' = elementDescriptors s @ [d]
                \<and> Map_get (elementPaths s') d = Some path)))
   \<and> (\<forall>pre d ancestors post s path.
        visits documents = pre @ VisitBehavior d ancestors # post
        \<and> run [PackageGatherer, ElementGatherer] pre gathered_empty = Inr s
        \<and> getPathFromAncestors ancestors = Some path \<longrightarrow>
          (\<forall>earlier q. VisitBehavior d earlier \<in> set pre \<and> getPathFromAncestors earlier = Some q \<longrightarrow>
             (if q = path then visitBehavior_gather d ancestors s = Inr s
              else visitBehavior_gather d ancestors s = Inl (DistinctPaths d path q)
                 \<and> gather documents = Inl (DistinctPaths d path q)
                 \<and> sublist path (message (DistinctPaths d path q))
                 \<and> sublist q (message (DistinctPaths d path q))))
        \<and> ((\<forall>earlier. VisitBehavior d earlier \<notin> set pre) \<longrightarrow>
             (\<exists>s'. visitBehavior_gather d ancestors s = Inr s'
                \<and> behaviorDescriptors s' = behaviorDescriptors s @ [d]
                \<and> Map_get (behaviorPaths s') d = Some path)))"
proof (intro conjI allI impI)
  fix g assume g: "gather documents = Inr g"
  have h: "holds (visits documents) g" by (rule run_holds[OF g[unfolded gather_run]])
  show "elementDescriptors g = firsts (elementsVisited (visits documents))"
    and "behaviorDescriptors g = firsts (behaviorsVisited (visits documents))"
    using h by (simp_all add: holds_def)
  then show "distinct (elementDescriptors g)" and "distinct (behaviorDescriptors g)"
    by simp_all
  show "\<And>d ancestors. VisitElement d ancestors \<in> set (visits documents) \<Longrightarrow>
            Map_get (elementPaths g) d = getPathFromAncestors ancestors"
    using h unfolding holds_def by blast
  show "\<And>d ancestors. VisitBehavior d ancestors \<in> set (visits documents) \<Longrightarrow>
            Map_get (behaviorPaths g) d = getPathFromAncestors ancestors"
    using h unfolding holds_def by blast
next
  fix pre d ancestors post s path earlier q
  assume a: "visits documents = pre @ VisitElement d ancestors # post
        \<and> run [PackageGatherer, ElementGatherer] pre gathered_empty = Inr s
        \<and> getPathFromAncestors ancestors = Some path"
    and b: "VisitElement d earlier \<in> set pre \<and> getPathFromAncestors earlier = Some q"
  note again = element_again[of pre s ancestors path d earlier q]
  show "if q = path then visitElement_gather d ancestors s = Inr s
        else visitElement_gather d ancestors s = Inl (DistinctPaths d path q)
           \<and> gather documents = Inl (DistinctPaths d path q)
           \<and> sublist path (message (DistinctPaths d path q))
           \<and> sublist q (message (DistinctPaths d path q))"
  proof (cases "q = path")
    case True
    then show ?thesis using again(1) a b by simp
  next
    case False
    have v: "visitElement_gather d ancestors s = Inl (DistinctPaths d path q)"
      using again(2) a b False by simp
    have "gather documents = Inl (DistinctPaths d path q)"
      unfolding gather_run using a run_stops[of _ pre gathered_empty s "VisitElement d ancestors"] v
      by simp
    then show ?thesis using False v distinct_paths_message by simp
  qed
next
  fix pre d ancestors post s path
  assume a: "visits documents = pre @ VisitElement d ancestors # post
        \<and> run [PackageGatherer, ElementGatherer] pre gathered_empty = Inr s
        \<and> getPathFromAncestors ancestors = Some path"
    and b: "\<forall>earlier. VisitElement d earlier \<notin> set pre"
  show "\<exists>s'. visitElement_gather d ancestors s = Inr s'
        \<and> elementDescriptors s' = elementDescriptors s @ [d]
        \<and> Map_get (elementPaths s') d = Some path"
    using element_first[of pre s ancestors path d] a b by simp
next
  fix pre d ancestors post s path earlier q
  assume a: "visits documents = pre @ VisitBehavior d ancestors # post
        \<and> run [PackageGatherer, ElementGatherer] pre gathered_empty = Inr s
        \<and> getPathFromAncestors ancestors = Some path"
    and b: "VisitBehavior d earlier \<in> set pre \<and> getPathFromAncestors earlier = Some q"
  note again = behavior_again[of pre s ancestors path d earlier q]
  show "if q = path then visitBehavior_gather d ancestors s = Inr s
        else visitBehavior_gather d ancestors s = Inl (DistinctPaths d path q)
           \<and> gather documents = Inl (DistinctPaths d path q)
           \<and> sublist path (message (DistinctPaths d path q))
           \<and> sublist q (message (DistinctPaths d path q))"
  proof (cases "q = path")
    case True
    then show ?thesis using again(1) a b by simp
  next
    case False
    have v: "visitBehavior_gather d ancestors s = Inl (DistinctPaths d path q)"
      using again(2) a b False by simp
    have "gather documents = Inl (DistinctPaths d path q)"
      unfolding gather_run using a run_stops[of _ pre gathered_empty s "VisitBehavior d ancestors"] v
      by simp
    then show ?thesis using False v distinct_paths_message by simp
  qed
next
  fix pre d ancestors post s path
  assume a: "visits documents = pre @ VisitBehavior d ancestors # post
        \<and> run [PackageGatherer, ElementGatherer] pre gathered_empty = Inr s
        \<and> getPathFromAncestors ancestors = Some path"
    and b: "\<forall>earlier. VisitBehavior d earlier \<notin> set pre"
  show "\<exists>s'. visitBehavior_gather d ancestors s = Inr s'
        \<and> behaviorDescriptors s' = behaviorDescriptors s @ [d]
        \<and> Map_get (behaviorPaths s') d = Some path"
    using behavior_first[of pre s ancestors path d] a b by simp
qed

text \<open>
  C6 on two walks. An element and a behavior that stand twice in \<open>/a.html\<close> are recorded
  once each. An element that stands in \<open>/a.html\<close> and in \<open>/b.html\<close> stops the walk at
  its second visit, with both paths in the message.
\<close>

definition seen_twice :: "ddesc list" where
  "seen_twice =
     [DD (OtherDocument ''/a.html'')
        [ElementDescriptor 0, BehaviorDescriptor 1, ElementDescriptor 0, BehaviorDescriptor 1] []]"

definition page_a :: ddesc where
  "page_a = DD (OtherDocument ''/a.html'') [ElementDescriptor 0] []"

definition page_b :: ddesc where
  "page_b = DD (OtherDocument ''/b.html'') [ElementDescriptor 0] []"

theorem gatherer_records_once_or_reports_both_paths_witness:
  "gather seen_twice =
     Inr (gathered_empty\<lparr>elementDescriptors := [0], elementPaths := [(0, ''/a.html'')],
                         behaviorDescriptors := [1], behaviorPaths := [(1, ''/a.html'')]\<rparr>)
   \<and> firsts (elementsVisited (visits seen_twice)) = [0]
   \<and> firsts (behaviorsVisited (visits seen_twice)) = [1]
   \<and> visits [page_a, page_b] =
       [VisitDocument page_a [DocumentDescriptor page_a],
        VisitElement 0 [DocumentDescriptor page_a],
        VisitDocument page_b [DocumentDescriptor page_b],
        VisitElement 0 [DocumentDescriptor page_b]]
   \<and> gather [page_a, page_b] = Inl (DistinctPaths 0 ''/b.html'' ''/a.html'')
   \<and> message (DistinctPaths 0 ''/b.html'' ''/a.html'')
        = ''Found element [object Object] at distinct paths: /b.html and /a.html''
   \<and> sublist ''/b.html'' (message (DistinctPaths 0 ''/b.html'' ''/a.html''))
   \<and> sublist ''/a.html'' (message (DistinctPaths 0 ''/b.html'' ''/a.html''))"
proof -
  let ?g = "gathered_empty\<lparr>elementDescriptors := [0], elementPaths := [(0, ''/a.html'')],
                         behaviorDescriptors := [1], behaviorPaths := [(1, ''/a.html'')]\<rparr>"
  have path: "\<And>u es ds. getPathFromAncestors [DocumentDescriptor (DD (OtherDocument (CHR ''/'' # u)) es ds)]
      = Some (CHR ''/'' # u)"
    by (simp add: getPathFromAncestors_def url_def)
  have twice: "gather seen_twice = Inr ?g"
    by (simp add: gather_run visits_def seen_twice_def PackageGatherer_visitDocumentDescriptor_def
        visitElement_gather_def visitBehavior_gather_def path Map_get_def gathered_empty_def)
  from gatherer_records_once_or_reports_both_paths[of seen_twice] twice
  have once: "elementDescriptors ?g = firsts (elementsVisited (visits seen_twice))"
    "behaviorDescriptors ?g = firsts (behaviorsVisited (visits seen_twice))"
    by blast+
  let ?pre = "[VisitDocument page_a [DocumentDescriptor page_a],
        VisitElement 0 [DocumentDescriptor page_a],
        VisitDocument page_b [DocumentDescriptor page_b]]"
  let ?s = "gathered_empty\<lparr>elementDescriptors := [0], elementPaths := [(0, ''/a.html'')]\<rparr>"
  have vs: "visits [page_a, page_b] = ?pre @ VisitElement 0 [DocumentDescriptor page_b] # []"
    by (simp add: visits_def page_a_def page_b_def)
  have pa: "getPathFromAncestors [DocumentDescriptor page_a] = Some ''/a.html''"
    and pb: "getPathFromAncestors [DocumentDescriptor page_b] = Some ''/b.html''"
    by (simp_all add: page_a_def page_b_def path)
  have pre: "run [PackageGatherer, ElementGatherer] ?pre gathered_empty = Inr ?s"
    by (simp add: PackageGatherer_visitDocumentDescriptor_def visitElement_gather_def path
        Map_get_def gathered_empty_def page_a_def page_b_def)
  have seen: "VisitElement 0 [DocumentDescriptor page_a] \<in> set ?pre" by simp
  have ne: "''/a.html'' \<noteq> ''/b.html''" by simp
  from gatherer_records_once_or_reports_both_paths[of "[page_a, page_b]"] vs pre pb seen pa
  have "if ''/a.html'' = ''/b.html''
        then visitElement_gather 0 [DocumentDescriptor page_b] ?s = Inr ?s
        else visitElement_gather 0 [DocumentDescriptor page_b] ?s = Inl (DistinctPaths 0 ''/b.html'' ''/a.html'')
           \<and> gather [page_a, page_b] = Inl (DistinctPaths 0 ''/b.html'' ''/a.html'')
           \<and> sublist ''/b.html'' (message (DistinctPaths 0 ''/b.html'' ''/a.html''))
           \<and> sublist ''/a.html'' (message (DistinctPaths 0 ''/b.html'' ''/a.html''))"
    by blast
  then have apart: "gather [page_a, page_b] = Inl (DistinctPaths 0 ''/b.html'' ''/a.html'')"
    and m1: "sublist ''/b.html'' (message (DistinctPaths 0 ''/b.html'' ''/a.html''))"
    and m2: "sublist ''/a.html'' (message (DistinctPaths 0 ''/b.html'' ''/a.html''))"
    using ne by simp_all
  have msg: "message (DistinctPaths 0 ''/b.html'' ''/a.html'')
        = ''Found element [object Object] at distinct paths: /b.html and /a.html''"
    by (simp add: objectObject_def)
  show ?thesis using twice once vs apart msg m1 m2 by simp
qed

section \<open>Validation: the version check and the aggregate error\<close>

lemma sublist_join: "x \<in> set xs \<Longrightarrow> sublist x (join sep xs)"
proof (induction sep xs rule: join.induct)
  case (1 sep)
  then show ?case by simp
next
  case (2 sep y)
  then show ?case by simp
next
  case (3 sep y z zs)
  show ?case
  proof (cases "x = y")
    case True
    have "join sep (y # z # zs) = [] @ y @ (sep @ join sep (z # zs))" by simp
    then show ?thesis unfolding True sublist_def by blast
  next
    case False
    then have "sublist x (join sep (z # zs))" using 3 by simp
    then obtain ps ss where "join sep (z # zs) = ps @ x @ ss" unfolding sublist_def by blast
    then have "join sep (y # z # zs) = (y @ sep @ ps) @ x @ ss" by simp
    then show ?thesis unfolding sublist_def by blast
  qed
qed

text \<open>
  C4, as amended. For every validator and every input object:

  \<^item> when the object's \<open>schema_version\<close> does not match \<open>1.x.x\<close>, \<open>validate\<close> throws,
    whatever the validator reports;
  \<^item> when the validator reports nothing and the version does not match, the error is
    the version error, whose message contains the version found;
  \<^item> when the validator reports structural violations (and sets no \<open>throwError\<close>), the
    error is one \<open>ValidationError\<close> carrying all of them, whose message contains the
    text of every one of them; the version is not looked at;
  \<^item> when the validator reports nothing and the version matches, \<open>validate\<close> returns.
\<close>

theorem validate_throws_on_version_or_structure:
  "(\<forall>pkg. analyzedPackage = Some pkg \<and> \<not> matches_1_x_x (schema_version pkg)
       \<longrightarrow> (\<exists>err. validate validator analyzedPackage = Inl err))
   \<and> (\<forall>pkg. analyzedPackage = Some pkg \<and> \<not> matches_1_x_x (schema_version pkg)
         \<and> throwError (validator analyzedPackage) = None \<and> errors (validator analyzedPackage) = []
       \<longrightarrow> validate validator analyzedPackage = Inl (InvalidSchemaVersion (schema_version pkg))
           \<and> sublist (schema_version pkg) (message (InvalidSchemaVersion (schema_version pkg))))
   \<and> (throwError (validator analyzedPackage) = None \<and> errors (validator analyzedPackage) \<noteq> []
       \<longrightarrow> validate validator analyzedPackage =
             Inl (ValidationError (ValidationError_message (errors (validator analyzedPackage)))
                    (errors (validator analyzedPackage)))
           \<and> (\<forall>err\<in>set (errors (validator analyzedPackage)).
                 sublist (shown err) (ValidationError_message (errors (validator analyzedPackage)))))
   \<and> (\<forall>pkg. analyzedPackage = Some pkg \<and> matches_1_x_x (schema_version pkg)
         \<and> throwError (validator analyzedPackage) = None \<and> errors (validator analyzedPackage) = []
       \<longrightarrow> validate validator analyzedPackage = Inr ())"
proof -
  have enum: "\<forall>err\<in>set errs. sublist (shown err) (ValidationError_message errs)" for errs
  proof
    fix err assume "err \<in> set errs"
    then have "''    '' @ shown err \<in> set (map (\<lambda>err. ''    '' @ shown err) errs)" by auto
    from sublist_join[OF this, of "[CHR 0x0A]"]
    obtain ps ss where j: "join [CHR 0x0A] (map (\<lambda>err. ''    '' @ shown err) errs)
        = ps @ (''    '' @ shown err) @ ss"
      unfolding sublist_def by blast
    have "ValidationError_message errs =
      (''Unable to validate serialized Polymer analysis. '' @
       ''Got '' @ decimal (length errs) @ '' errors: '' @ ps @ ''    '') @ shown err @ ss"
      unfolding ValidationError_message_def j by simp
    then show "sublist (shown err) (ValidationError_message errs)"
      unfolding sublist_def by blast
  qed
  have ver: "sublist v (message (InvalidSchemaVersion v))" for v
  proof -
    have "message (InvalidSchemaVersion v) =
      (''Invalid schema_version in AnalyzedPackage. '' @ ''Expected 1.x.x, got '') @ v @ []"
      by simp
    then show ?thesis unfolding sublist_def by blast
  qed
  show ?thesis
    using enum[of "errors (validator analyzedPackage)"] ver
    by (auto simp: validate_def Let_def split: option.splits)
qed

text \<open>Two validators for the examples: one reports a missing property, one nothing.\<close>

definition one_violation :: "analyzed_package option \<Rightarrow> validator_result" where
  "one_violation p =
     \<lparr>throwError = None,
      errors = [VError (Some ''requires property elements'') ''instance requires property elements'']\<rparr>"

definition no_violation :: "analyzed_package option \<Rightarrow> validator_result" where
  "no_violation p = \<lparr>throwError = None, errors = []\<rparr>"

text \<open>C4 on \<open>2.0.0\<close> and \<open>1.2.3\<close>, with and without a structural violation.\<close>

theorem validate_throws_on_version_or_structure_witness:
  "validate no_violation (Some \<lparr>schema_version = ''2.0.0'', elements = []\<rparr>)
     = Inl (InvalidSchemaVersion ''2.0.0'')
   \<and> validate no_violation (Some \<lparr>schema_version = ''1.2.3'', elements = []\<rparr>) = Inr ()
   \<and> validate one_violation (Some \<lparr>schema_version = ''1.2.3'', elements = []\<rparr>)
     = Inl (ValidationError (ValidationError_message (errors (one_violation None)))
              (errors (one_violation None)))"
proof -
  have m: "\<not> matches_1_x_x ''2.0.0''" "matches_1_x_x ''1.2.3''"
    by (simp_all add: matches_1_x_x_def isDigit_def)
  have n: "throwError (no_violation p) = None" "errors (no_violation p) = []"
    "throwError (one_violation p) = None" "errors (one_violation p) \<noteq> []"
    "errors (one_violation p) = errors (one_violation None)" for p
    by (simp_all add: no_violation_def one_violation_def)
  from validate_throws_on_version_or_structure
    [of "Some \<lparr>schema_version = ''2.0.0'', elements = []\<rparr>" no_violation] m n
  have 1: "validate no_violation (Some \<lparr>schema_version = ''2.0.0'', elements = []\<rparr>)
     = Inl (InvalidSchemaVersion ''2.0.0'')" by simp
  from validate_throws_on_version_or_structure
    [of "Some \<lparr>schema_version = ''1.2.3'', elements = []\<rparr>" no_violation] m n
  have 2: "validate no_violation (Some \<lparr>schema_version = ''1.2.3'', elements = []\<rparr>) = Inr ()"
    by simp
  from validate_throws_on_version_or_structure
    [of "Some \<lparr>schema_version = ''1.2.3'', elements = []\<rparr>" one_violation] n
  have 3: "validate one_violation (Some \<lparr>schema_version = ''1.2.3'', elements = []\<rparr>)
     = Inl (ValidationError (ValidationError_message (errors (one_violation None)))
              (errors (one_violation None)))"
    by metis
  show ?thesis using 1 2 3 by blast
qed

text \<open>
  C4 as stated fails: with one structural violation, the error for the version
  \<open>2.0.0\<close>, which does not match, is the error for \<open>1.2.3\<close>, which does. Its
  message lists the violation and says nothing of the version check.
\<close>

theorem validate_aggregate_without_version_counterexample:
  "validate one_violation (Some \<lparr>schema_version = ''2.0.0'', elements = []\<rparr>)
     = Inl (ValidationError
         (''Unable to validate serialized Polymer analysis. Got 1 errors: '' @
          ''    requires property elements'')
         [VError (Some ''requires property elements'') ''instance requires property elements''])
   \<and> validate one_violation (Some \<lparr>schema_version = ''2.0.0'', elements = []\<rparr>)
     = validate one_violation (Some \<lparr>schema_version = ''1.2.3'', elements = []\<rparr>)
   \<and> \<not> matches_1_x_x ''2.0.0'' \<and> matches_1_x_x ''1.2.3''"
  by (simp add: validate_def one_violation_def ValidationError_message_def shown_def
      decimal.simps matches_1_x_x_def isDigit_def)


section \<open>\<open>resolveElement\<close> writes to new objects only\<close>

text \<open>Merging only appends to the store of items.\<close>

lemma inheritVals_extends:
  "inheritVals src vals (h, m) = Inr (h', m') \<Longrightarrow> \<exists>ex. h' = h @ ex"
proof (induction vals arbitrary: h m)
  case Nil
  then show ?case by simp
next
  case (Cons a vals)
  from Cons.prems obtain it where it: "load h a = Inr it" by (auto split: sum.splits)
  show ?case
  proof (cases "Map_has m (name it)")
    case True
    then show ?thesis using Cons.prems it Cons.IH by simp
  next
    case False
    have "(h @ [it])[length h := ((h @ [it]) ! length h)\<lparr>inheritedFrom := src\<rparr>]
          = h @ [it\<lparr>inheritedFrom := src\<rparr>]"
      by simp
    with Cons.prems it False
    have "inheritVals src vals (h @ [it\<lparr>inheritedFrom := src\<rparr>],
            Map_set m (name it) (length h)) = Inr (h', m')"
      by (simp add: alloc_def)
    from Cons.IH[OF this] show ?thesis by auto
  qed
qed

lemma inheritSources_extends:
  "inheritSources srcs (h, m) = Inr (h', m') \<Longrightarrow> \<exists>ex. h' = h @ ex"
proof (induction srcs arbitrary: h m)
  case Nil
  then show ?case by simp
next
  case (Cons sv srcs)
  obtain src vals where sv: "sv = (src, vals)" by (cases sv)
  from Cons.prems obtain h1 m1 where 1: "inheritVals src vals (h, m) = Inr (h1, m1)"
    and 2: "inheritSources srcs (h1, m1) = Inr (h', m')"
    by (auto simp: sv split: sum.splits)
  from inheritVals_extends[OF 1] Cons.IH[OF 2] show ?case by auto
qed

lemma mergeByName_extends:
  "mergeByName h base srcs = Inr (h', res) \<Longrightarrow> \<exists>ex. h' = h @ ex"
  by (auto simp: mergeByName_def split: sum.splits dest: inheritSources_extends)

lemma resolveElement_Inr:
  assumes "resolveElement h e an = Inr (h', clone)"
  shows "e < length (objects h) \<and> clone = length (objects h)
     \<and> (\<exists>props attrs evs. objects h' = objects h @
           [(objects h ! e)\<lparr>properties := props, attributes := attrs, events := evs,
                             polymer := False\<rparr>])
     \<and> (\<exists>ex. items h' = items h @ ex)"
proof -
  from assms have e: "e < length (objects h)"
    by (auto simp: resolveElement_def load_def split: if_splits)
  then have ld: "load (objects h) e = Inr (objects h ! e)" by (simp add: load_def)
  let ?obj = "objects h ! e"
  have upd: "\<And>x f. ((objects h @ [x])[length (objects h) := f x]) = objects h @ [f x]"
    by simp
  show ?thesis
  proof (cases "polymer ?obj")
    case False
    with assms ld have o: "objects h' = objects h @ [?obj\<lparr>polymer := False\<rparr>]"
      and i: "items h' = items h @ []" and c: "clone = length (objects h)"
      by (auto simp: resolveElement_def alloc_def)
    have "?obj\<lparr>polymer := False\<rparr> = ?obj\<lparr>properties := properties ?obj,
        attributes := attributes ?obj, events := events ?obj, polymer := False\<rparr>"
      by simp
    with o have "\<exists>props attrs evs. objects h' = objects h @
           [?obj\<lparr>properties := props, attributes := attrs, events := evs, polymer := False\<rparr>]"
      by metis
    then show ?thesis using e c i by blast
  next
    case True
    from assms True ld obtain i1 props i2 attrs i3 evs srcs1 srcs2 srcs3 where
      m1: "mergeByName (items h) (properties ?obj) srcs1 = Inr (i1, props)"
      and m2: "mergeByName i1 (attributes ?obj) srcs2 = Inr (i2, attrs)"
      and m3: "mergeByName i2 (events ?obj) srcs3 = Inr (i3, evs)"
      and r: "h' = \<lparr>items = i3, objects = objects h @
           [?obj\<lparr>properties := props, attributes := attrs, events := evs, polymer := False\<rparr>]\<rparr>"
         "clone = length (objects h)"
      by (auto simp: resolveElement_def alloc_def split: sum.splits)
    from mergeByName_extends[OF m1] mergeByName_extends[OF m2] mergeByName_extends[OF m3]
    have "\<exists>ex. i3 = items h @ ex" by auto
    then show ?thesis using e r by auto
  qed
qed

text \<open>
  C9. When \<open>resolveElement\<close> returns, every item and every descriptor object of the
  store is what it was, the element descriptor and the items of its three lists among
  them; the clone is a new object, and its \<open>tagName\<close>, \<open>className\<close> and \<open>behaviors\<close>
  are those of the descriptor.
\<close>

theorem resolveElement_leaves_descriptor_unchanged:
  assumes "resolveElement h e an = Inr (h', clone)"
  shows "take (length (items h)) (items h') = items h
     \<and> take (length (objects h)) (objects h') = objects h
     \<and> e < length (objects h) \<and> objects h' ! e = objects h ! e
     \<and> (\<forall>a\<in>set (properties (objects h ! e)) \<union> set (attributes (objects h ! e))
              \<union> set (events (objects h ! e)).
           a < length (items h) \<longrightarrow> items h' ! a = items h ! a)
     \<and> clone = length (objects h) \<and> length (objects h') = Suc (length (objects h))
     \<and> tagName (objects h' ! clone) = tagName (objects h ! e)
     \<and> className (objects h' ! clone) = className (objects h ! e)
     \<and> behaviors (objects h' ! clone) = behaviors (objects h ! e)"
proof -
  from resolveElement_Inr[OF assms] obtain props attrs evs ex where
    e: "e < length (objects h)" and c: "clone = length (objects h)"
    and o: "objects h' = objects h @
           [(objects h ! e)\<lparr>properties := props, attributes := attrs, events := evs,
                             polymer := False\<rparr>]"
    and i: "items h' = items h @ ex"
    by blast
  show ?thesis using e by (simp add: c o i nth_append)
qed


text \<open>
  The element \<open>x-a\<close> (address 0) with the behavior \<open>B\<close> by name, and \<open>B\<close> (address 1)
  with the property \<open>p1\<close>; the store after resolving \<open>x-a\<close> has a copy of \<open>p1\<close>
  inherited from \<open>B\<close>, and the clone at address 2.
\<close>

definition app_heap :: heap where
  "app_heap =
     \<lparr>items = [\<lparr>name = ''p1'', inheritedFrom = None, detail = ''String''\<rparr>],
      objects =
        [\<lparr>tagName = Some ''x-a'', className = None, properties = [], attributes = [],
          events = [], behaviors = [ByName ''B''], polymer = True\<rparr>,
         \<lparr>tagName = None, className = Some ''B'', properties = [0], attributes = [],
          events = [], behaviors = [], polymer = True\<rparr>]\<rparr>"

definition app_behaviors :: analysis where
  "app_behaviors =
     \<lparr>descriptors = [], elementsByTagName = [], elementsByPackageDir = [],
      behaviorsByIdentifierName = [(''B'', 1)], documentsByLocalPath = []\<rparr>"

definition app_resolved :: heap where
  "app_resolved =
     \<lparr>items = items app_heap @ [\<lparr>name = ''p1'', inheritedFrom = Some ''B'', detail = ''String''\<rparr>],
      objects = objects app_heap @
        [\<lparr>tagName = Some ''x-a'', className = None, properties = [1], attributes = [],
          events = [], behaviors = [ByName ''B''], polymer = False\<rparr>]\<rparr>"

lemma app_resolveElement: "resolveElement app_heap 0 app_behaviors = Inr (app_resolved, 2)"
  by (simp add: resolveElement_def getFlattenedAndResolvedBehaviors_def
      getFlattenedAndResolvedBehaviors_rec.simps lookupBehavior_def getBehavior_def Map_get_def
      load_def mergeByName_def alloc_def Map_has_def Map_values_def app_heap_def
      app_behaviors_def app_resolved_def)

text \<open>C9 on \<open>x-a\<close>.\<close>

theorem resolveElement_leaves_descriptor_unchanged_witness:
  "resolveElement app_heap 0 app_behaviors = Inr (app_resolved, 2)
   \<and> take (length (items app_heap)) (items app_resolved) = items app_heap
   \<and> take (length (objects app_heap)) (objects app_resolved) = objects app_heap
   \<and> objects app_resolved ! 0 = objects app_heap ! 0
   \<and> tagName (objects app_resolved ! 2) = tagName (objects app_heap ! 0)
   \<and> behaviors (objects app_resolved ! 2) = behaviors (objects app_heap ! 0)"
  using resolveElement_leaves_descriptor_unchanged[OF app_resolveElement] app_resolveElement
  by blast

section \<open>Package buckets and the tag index\<close>

text \<open>
  The reduce of \<open>max\<close> with \<open>longer\<close> keeps a longest string of the list, and so the
  package directory of a path is a longest gathered directory that is a prefix of it,
  or the empty string when there is none.
\<close>

lemma longer_pos: "longer acc x > 0 \<longleftrightarrow> (\<exists>a. acc = Some a \<and> length x < length a)"
  by (auto simp: longer_def split: option.splits)

lemma max_of_longer_fold:
  "foldl (\<lambda>prev cur. if longer prev cur > 0 then prev else Some cur) acc xs = r \<Longrightarrow>
   (r = None \<longleftrightarrow> acc = None \<and> xs = [])
   \<and> (\<forall>m. r = Some m \<longrightarrow> (m \<in> set xs \<or> acc = Some m)
          \<and> (\<forall>x\<in>set xs. length x \<le> length m)
          \<and> (\<forall>a. acc = Some a \<longrightarrow> length a \<le> length m))"
proof (induction xs arbitrary: acc)
  case Nil
  then show ?case by auto
next
  case (Cons x xs)
  show ?case
  proof (cases "longer acc x > 0")
    case True
    then obtain a where a: "acc = Some a" "length x < length a" by (auto simp: longer_pos)
    from Cons.prems True
    have "foldl (\<lambda>prev cur. if longer prev cur > 0 then prev else Some cur) acc xs = r"
      by simp
    from Cons.IH[OF this] a show ?thesis by auto
  next
    case False
    then have le: "\<forall>a. acc = Some a \<longrightarrow> length a \<le> length x"
      by (auto simp: longer_pos not_less)
    from Cons.prems False
    have "foldl (\<lambda>prev cur. if longer prev cur > 0 then prev else Some cur) (Some x) xs = r"
      by simp
    from Cons.IH[OF this] le show ?thesis by (auto intro: order_trans)
  qed
qed

lemma longestMatchingPackageDir_longest:
  "((\<exists>d\<in>set dirs. prefix d p) \<longrightarrow>
      longestMatchingPackageDir dirs p \<in> set dirs
      \<and> prefix (longestMatchingPackageDir dirs p) p
      \<and> (\<forall>d\<in>set dirs. prefix d p \<longrightarrow> length d \<le> length (longestMatchingPackageDir dirs p)))
   \<and> ((\<forall>d\<in>set dirs. \<not> prefix d p) \<longrightarrow> longestMatchingPackageDir dirs p = [])"
proof -
  let ?ms = "filter (\<lambda>dir. prefix dir p) dirs"
  obtain r where r: "max_of ?ms longer = r" by simp
  note f = max_of_longer_fold[OF r[unfolded max_of_def]]
  show ?thesis
  proof (cases r)
    case None
    then have "?ms = []" using f by simp
    then show ?thesis using r None
      by (auto simp: longestMatchingPackageDir_def filter_empty_conv)
  next
    case (Some m)
    then have m: "m \<in> set ?ms" "\<forall>x\<in>set ?ms. length x \<le> length m" using f by auto
    have eq: "longestMatchingPackageDir dirs p = m"
      using r Some by (simp add: longestMatchingPackageDir_def)
    show ?thesis unfolding eq using m by auto
  qed
qed

text \<open>
  The loop over the gathered elements allocates one clone per element, at consecutive
  addresses. \<open>placed g n es d\<close> lists the clones of the elements \<open>es\<close>, allocated from
  address \<open>n\<close> on, whose element has the package directory \<open>d\<close>.
\<close>

definition owner_dir :: "gathered \<Rightarrow> addr \<Rightarrow> string" where
  "owner_dir g e =
     (case Map_get (elementPaths g) e of
        None \<Rightarrow> []
      | Some path \<Rightarrow> longestMatchingPackageDir (packageDirs g) path)"

definition bucket :: "(string, addr list) jsmap \<Rightarrow> string \<Rightarrow> addr list" where
  "bucket m d = (case Map_get m d of None \<Rightarrow> [] | Some l \<Rightarrow> l)"

definition placed :: "gathered \<Rightarrow> nat \<Rightarrow> addr list \<Rightarrow> string \<Rightarrow> addr list" where
  "placed g n es d =
     map fst (filter (\<lambda>(c, e). owner_dir g e = d) (zip [n ..< n + length es] es))"

lemma placed_Nil [simp]: "placed g n [] d = []"
  by (simp add: placed_def)

lemma placed_Cons:
  "placed g n (e # es) d = (if owner_dir g e = d then [n] else []) @ placed g (Suc n) es d"
  by (simp add: placed_def upt_conv_Cons del: upt_Suc)

lemma set_placed:
  "set (placed g n es d) = {n + j | j. j < length es \<and> owner_dir g (es ! j) = d}"
proof (induction es arbitrary: n)
  case Nil
  then show ?case by simp
next
  case (Cons e es)
  have "{n + j | j. j < length (e # es) \<and> owner_dir g ((e # es) ! j) = d}
      = (if owner_dir g e = d then {n} else {})
        \<union> {Suc n + j | j. j < length es \<and> owner_dir g (es ! j) = d}"
    (is "?L = ?R")
  proof
    show "?L \<subseteq> ?R"
    proof
      fix c assume "c \<in> ?L"
      then obtain j where j: "c = n + j" "j < length (e # es)" "owner_dir g ((e # es) ! j) = d"
        by blast
      show "c \<in> ?R"
      proof (cases j)
        case 0
        then show ?thesis using j by simp
      next
        case (Suc k)
        then have "c = Suc n + k" "k < length es" "owner_dir g (es ! k) = d" using j by auto
        then show ?thesis by blast
      qed
    qed
    show "?R \<subseteq> ?L"
    proof
      fix c assume "c \<in> ?R"
      then consider "owner_dir g e = d" "c = n"
        | k where "c = Suc n + k" "k < length es" "owner_dir g (es ! k) = d"
        by (auto split: if_splits)
      then show "c \<in> ?L"
      proof cases
        case 1
        then have "c = n + 0 \<and> 0 < length (e # es) \<and> owner_dir g ((e # es) ! 0) = d" by simp
        then show ?thesis by blast
      next
        case 2
        then have "c = n + Suc k \<and> Suc k < length (e # es) \<and> owner_dir g ((e # es) ! Suc k) = d"
          by simp
        then show ?thesis by blast
      qed
    qed
  qed
  then show ?case by (simp add: placed_Cons Cons.IH)
qed

lemma distinct_placed: "distinct (placed g n es d)"
proof -
  have "distinct (map fst (zip [n ..< n + length es] es))" by (simp add: map_fst_zip_take)
  then have "distinct (map fst (filter (\<lambda>(c, e). owner_dir g e = d) (zip [n ..< n + length es] es)))"
    by (rule distinct_map_filter)
  then show ?thesis by (simp add: placed_def)
qed


lemma Map_values_set: "set (Map_values (Map_set m k v)) \<subseteq> insert v (set (Map_values m))"
  by (induction m) (force simp: Map_values_def split: if_splits)+


lemma bucket_set: "bucket (Map_set m k v) d = (if d = k then v else bucket m d)"
  by (simp add: bucket_def Map_get_set)

lemma prefix_nth: "prefix xs ys \<Longrightarrow> i < length xs \<Longrightarrow> ys ! i = xs ! i"
  by (auto simp: prefix_def nth_append)

lemma indexElement_Inr:
  assumes "indexElement g e (h, an) = Inr (h1, an1)"
  shows "resolveElement h e an = Inr (h1, length (objects h))
     \<and> Map_get (elementPaths g) e \<noteq> None
     \<and> elementsByTagName an1 =
         (case tagName (objects h ! e) of
            None \<Rightarrow> elementsByTagName an
          | Some tag \<Rightarrow>
              if tag \<noteq> [] then Map_set (elementsByTagName an) tag (length (objects h))
              else elementsByTagName an)
     \<and> elementsByPackageDir an1 =
         Map_set (elementsByPackageDir an) (owner_dir g e)
           (bucket (elementsByPackageDir an) (owner_dir g e) @ [length (objects h)])
     \<and> behaviorsByIdentifierName an1 = behaviorsByIdentifierName an"
proof -
  from assms obtain h1' c where r: "resolveElement h e an = Inr (h1', c)"
    by (auto simp: indexElement_def split: sum.splits)
  from resolveElement_Inr[OF r] obtain props attrs evs where
    e: "e < length (objects h)" and c: "c = length (objects h)"
    and o: "objects h1' = objects h @
           [(objects h ! e)\<lparr>properties := props, attributes := attrs, events := evs,
                             polymer := False\<rparr>]"
    by blast
  have ld: "load (objects h1') c =
      Inr ((objects h ! e)\<lparr>properties := props, attributes := attrs, events := evs,
                             polymer := False\<rparr>)"
    by (simp add: load_def c o)
  from assms r ld obtain path where p: "Map_get (elementPaths g) e = Some path"
    by (auto simp: indexElement_def Let_def split: option.splits)
  show ?thesis
    using assms r ld p c
    by (auto simp: indexElement_def Let_def owner_dir_def bucket_def
        split: option.splits if_splits)
qed

lemma indexElements_Inr:
  "indexElements g es (h, an) = Inr (h', an') \<Longrightarrow>
     length (objects h') = length (objects h) + length es
   \<and> prefix (objects h) (objects h') \<and> prefix (items h) (items h')
   \<and> behaviorsByIdentifierName an' = behaviorsByIdentifierName an
   \<and> (\<forall>d. bucket (elementsByPackageDir an') d =
           bucket (elementsByPackageDir an) d @ placed g (length (objects h)) es d)
   \<and> (\<forall>d. Map_get (elementsByPackageDir an') d = None \<longleftrightarrow>
           Map_get (elementsByPackageDir an) d = None \<and> placed g (length (objects h)) es d = [])
   \<and> (\<forall>c\<in>set (Map_values (elementsByTagName an')).
         c \<in> set (Map_values (elementsByTagName an))
         \<or> (length (objects h) \<le> c \<and> c < length (objects h) + length es
            \<and> (\<exists>t. tagName (objects h' ! c) = Some t \<and> t \<noteq> [])))
   \<and> (\<forall>j<length es. Map_get (elementPaths g) (es ! j) \<noteq> None
         \<and> (\<exists>hi hj ani. resolveElement hi (es ! j) ani = Inr (hj, length (objects h) + j)
               \<and> behaviorsByIdentifierName ani = behaviorsByIdentifierName an
               \<and> prefix (objects h) (objects hi) \<and> prefix (items h) (items hi)
               \<and> prefix (objects hj) (objects h') \<and> prefix (items hj) (items h')))"
proof (induction es arbitrary: h an)
  case Nil
  then show ?case by (simp add: bucket_def)
next
  case (Cons e es)
  let ?n = "length (objects h)"
  from Cons.prems obtain h1 an1 where
    step: "indexElement g e (h, an) = Inr (h1, an1)"
    and rest: "indexElements g es (h1, an1) = Inr (h', an')"
    by (auto split: sum.splits)
  note s = indexElement_Inr[OF step]
  from s have res: "resolveElement h e an = Inr (h1, ?n)" by simp
  from resolveElement_Inr[OF res] obtain props attrs evs ex where
    e: "e < ?n"
    and o: "objects h1 = objects h @
           [(objects h ! e)\<lparr>properties := props, attributes := attrs, events := evs,
                             polymer := False\<rparr>]"
    and i: "items h1 = items h @ ex"
    by blast
  have len1: "length (objects h1) = Suc ?n" using o by simp
  have p1: "prefix (objects h) (objects h1)" "prefix (items h) (items h1)"
    using o i by (auto simp: prefix_def)
  note ih = Cons.IH[OF rest, unfolded len1]
  from ih have p2: "prefix (objects h1) (objects h')" "prefix (items h1) (items h')" by simp_all
  have tagn: "tagName (objects h' ! ?n) = tagName (objects h ! e)"
    using prefix_nth[OF p2(1), of ?n] o by simp
  have 1: "length (objects h') = ?n + length (e # es)" using ih by simp
  have 2: "prefix (objects h) (objects h')" "prefix (items h) (items h')"
    using p1 p2 by (auto intro: prefix_order.trans)
  have 3: "behaviorsByIdentifierName an' = behaviorsByIdentifierName an" using ih s by simp
  have bk1: "\<And>d. bucket (elementsByPackageDir an1) d =
      bucket (elementsByPackageDir an) d @ (if owner_dir g e = d then [?n] else [])"
    using s by (auto simp: bucket_set)
  have 4: "\<forall>d. bucket (elementsByPackageDir an') d =
           bucket (elementsByPackageDir an) d @ placed g ?n (e # es) d"
    using ih bk1 by (simp add: placed_Cons)
  have 5: "\<forall>d. Map_get (elementsByPackageDir an') d = None \<longleftrightarrow>
           Map_get (elementsByPackageDir an) d = None \<and> placed g ?n (e # es) d = []"
    using ih s by (auto simp: placed_Cons Map_get_set)
  have tags1: "set (Map_values (elementsByTagName an1)) \<subseteq>
      set (Map_values (elementsByTagName an))
      \<union> (if \<exists>t. tagName (objects h ! e) = Some t \<and> t \<noteq> [] then {?n} else {})"
    using s Map_values_set[of "elementsByTagName an" _ ?n]
    by (auto split: option.splits if_splits)
  have 6: "\<forall>c\<in>set (Map_values (elementsByTagName an')).
         c \<in> set (Map_values (elementsByTagName an))
         \<or> (?n \<le> c \<and> c < ?n + length (e # es)
            \<and> (\<exists>t. tagName (objects h' ! c) = Some t \<and> t \<noteq> []))"
  proof
    fix c assume "c \<in> set (Map_values (elementsByTagName an'))"
    with ih consider "c \<in> set (Map_values (elementsByTagName an1))"
      | "Suc ?n \<le> c \<and> c < Suc ?n + length es
            \<and> (\<exists>t. tagName (objects h' ! c) = Some t \<and> t \<noteq> [])"
      by blast
    then show "c \<in> set (Map_values (elementsByTagName an))
         \<or> (?n \<le> c \<and> c < ?n + length (e # es)
            \<and> (\<exists>t. tagName (objects h' ! c) = Some t \<and> t \<noteq> []))"
    proof cases
      case 1
      then show ?thesis using tags1 tagn by (auto split: if_splits)
    next
      case 2
      then show ?thesis by auto
    qed
  qed
  have 7: "\<forall>j<length (e # es). Map_get (elementPaths g) ((e # es) ! j) \<noteq> None
         \<and> (\<exists>hi hj ani. resolveElement hi ((e # es) ! j) ani = Inr (hj, ?n + j)
               \<and> behaviorsByIdentifierName ani = behaviorsByIdentifierName an
               \<and> prefix (objects h) (objects hi) \<and> prefix (items h) (items hi)
               \<and> prefix (objects hj) (objects h') \<and> prefix (items hj) (items h'))"
  proof (intro allI impI)
    fix j assume j: "j < length (e # es)"
    show "Map_get (elementPaths g) ((e # es) ! j) \<noteq> None
         \<and> (\<exists>hi hj ani. resolveElement hi ((e # es) ! j) ani = Inr (hj, ?n + j)
               \<and> behaviorsByIdentifierName ani = behaviorsByIdentifierName an
               \<and> prefix (objects h) (objects hi) \<and> prefix (items h) (items hi)
               \<and> prefix (objects hj) (objects h') \<and> prefix (items hj) (items h'))"
    proof (cases j)
      case 0
      have "resolveElement h e an = Inr (h1, ?n + 0)
               \<and> behaviorsByIdentifierName an = behaviorsByIdentifierName an
               \<and> prefix (objects h) (objects h) \<and> prefix (items h) (items h)
               \<and> prefix (objects h1) (objects h') \<and> prefix (items h1) (items h')"
        using res p2 by simp
      then show ?thesis unfolding 0 using s by (simp del: add_0_right) blast
    next
      case (Suc k)
      then have k: "k < length es" using j by simp
      from ih k obtain hi hj ani where
        "Map_get (elementPaths g) (es ! k) \<noteq> None"
        "resolveElement hi (es ! k) ani = Inr (hj, Suc ?n + k)"
        "behaviorsByIdentifierName ani = behaviorsByIdentifierName an1"
        "prefix (objects h1) (objects hi)" "prefix (items h1) (items hi)"
        "prefix (objects hj) (objects h')" "prefix (items hj) (items h')"
        by blast
      then have "Map_get (elementPaths g) ((e # es) ! j) \<noteq> None
        \<and> resolveElement hi ((e # es) ! j) ani = Inr (hj, ?n + j)
        \<and> behaviorsByIdentifierName ani = behaviorsByIdentifierName an
        \<and> prefix (objects h) (objects hi) \<and> prefix (items h) (items hi)
        \<and> prefix (objects hj) (objects h') \<and> prefix (items hj) (items h')"
        using Suc s p1 by (auto intro: prefix_order.trans)
      then show ?thesis by blast
    qed
  qed
  show ?case using 1 2 3 4 5 6 7 by blast
qed


lemma Analysis_new_Inr:
  assumes "Analysis_new h ds = Inr (h', this)" "gather ds = Inr g"
  obtains byName this1 where
    "indexBehaviors (objects h) (behaviorDescriptors g) [] = Inr byName"
    "indexElements g (elementDescriptors g)
       (h, \<lparr>descriptors = ds, elementsByTagName = [], elementsByPackageDir = [],
            behaviorsByIdentifierName = byName, documentsByLocalPath = []\<rparr>) = Inr (h', this1)"
    "this = this1\<lparr>documentsByLocalPath := indexDocuments ds []\<rparr>"
  using assms by (auto simp: Analysis_new_def split: sum.splits)

lemma constructed:
  assumes "Analysis_new h ds = Inr (h', this)" and "gather ds = Inr g"
  shows "\<And>d l. getElementsForPackage this d = Some l \<Longrightarrow>
           l = placed g (length (objects h)) (elementDescriptors g) d"
    and "\<And>d. getElementsForPackage this d = None \<longleftrightarrow>
           placed g (length (objects h)) (elementDescriptors g) d = []"
    and "\<And>c. c \<in> set (Map_values (elementsByTagName this)) \<Longrightarrow>
           \<exists>t. tagName (objects h' ! c) = Some t \<and> t \<noteq> []"
    and "\<And>i. i < length (elementDescriptors g) \<Longrightarrow>
           Map_get (elementPaths g) (elementDescriptors g ! i) \<noteq> None
           \<and> (\<exists>hi hj ani. resolveElement hi (elementDescriptors g ! i) ani
                             = Inr (hj, length (objects h) + i)
                 \<and> behaviorsByIdentifierName ani = behaviorsByIdentifierName this
                 \<and> prefix (objects h) (objects hi)
                 \<and> prefix (objects hj) (objects h'))"
proof -
  let ?es = "elementDescriptors g" and ?n = "length (objects h)"
  from Analysis_new_Inr[OF assms(1,2)] obtain byName this1 where
    loop: "indexElements g ?es
       (h, \<lparr>descriptors = ds, elementsByTagName = [], elementsByPackageDir = [],
            behaviorsByIdentifierName = byName, documentsByLocalPath = []\<rparr>) = Inr (h', this1)"
    and fin: "this = this1\<lparr>documentsByLocalPath := indexDocuments ds []\<rparr>"
    by blast
  note L = indexElements_Inr[OF loop]
  have bk: "bucket (elementsByPackageDir this) d = placed g ?n ?es d" for d
    using L by (simp add: fin bucket_def Map_get_def)
  have none: "Map_get (elementsByPackageDir this) d = None \<longleftrightarrow> placed g ?n ?es d = []" for d
    using L by (simp add: fin Map_get_def)
  show "\<And>d l. getElementsForPackage this d = Some l \<Longrightarrow> l = placed g ?n ?es d"
  proof -
    fix d l assume "getElementsForPackage this d = Some l"
    then show "l = placed g ?n ?es d"
      using bk[of d] by (simp add: getElementsForPackage_def bucket_def)
  qed
  show "\<And>d. getElementsForPackage this d = None \<longleftrightarrow> placed g ?n ?es d = []"
    using none by (simp add: getElementsForPackage_def)
  show "\<And>c. c \<in> set (Map_values (elementsByTagName this)) \<Longrightarrow>
           \<exists>t. tagName (objects h' ! c) = Some t \<and> t \<noteq> []"
  proof -
    fix c assume "c \<in> set (Map_values (elementsByTagName this))"
    then have "c \<in> set (Map_values (elementsByTagName this1))" by (simp add: fin)
    moreover from L have "\<forall>c\<in>set (Map_values (elementsByTagName this1)).
         c \<in> set (Map_values ([] :: (string, addr) jsmap))
         \<or> (?n \<le> c \<and> c < ?n + length ?es
            \<and> (\<exists>t. tagName (objects h' ! c) = Some t \<and> t \<noteq> []))"
      by simp
    ultimately have "c \<in> set (Map_values ([] :: (string, addr) jsmap))
        \<or> (\<exists>t. tagName (objects h' ! c) = Some t \<and> t \<noteq> [])"
      by blast
    then show "\<exists>t. tagName (objects h' ! c) = Some t \<and> t \<noteq> []"
      by (simp add: Map_values_def)
  qed
  have bn: "behaviorsByIdentifierName this = byName" using L by (simp add: fin)
  show "\<And>i. i < length ?es \<Longrightarrow>
           Map_get (elementPaths g) (?es ! i) \<noteq> None
           \<and> (\<exists>hi hj ani. resolveElement hi (?es ! i) ani = Inr (hj, ?n + i)
                 \<and> behaviorsByIdentifierName ani = behaviorsByIdentifierName this
                 \<and> prefix (objects h) (objects hi)
                 \<and> prefix (objects hj) (objects h'))"
  proof -
    fix i assume i: "i < length ?es"
    from L have all: "\<forall>j<length ?es. Map_get (elementPaths g) (?es ! j) \<noteq> None
         \<and> (\<exists>hi hj ani. resolveElement hi (?es ! j) ani = Inr (hj, ?n + j)
               \<and> behaviorsByIdentifierName ani = byName
               \<and> prefix (objects h) (objects hi) \<and> prefix (items h) (items hi)
               \<and> prefix (objects hj) (objects h') \<and> prefix (items hj) (items h'))"
      by simp
    from all[rule_format, OF i] show "Map_get (elementPaths g) (?es ! i) \<noteq> None
           \<and> (\<exists>hi hj ani. resolveElement hi (?es ! i) ani = Inr (hj, ?n + i)
                 \<and> behaviorsByIdentifierName ani = behaviorsByIdentifierName this
                 \<and> prefix (objects h) (objects hi)
                 \<and> prefix (objects hj) (objects h'))"
      unfolding bn by blast
  qed
qed

text \<open>
  C5. In a constructed analysis, the \<open>i\<close>-th gathered element has an owning path, and
  its resolved element, the clone that \<open>resolveElement\<close> returned for it at address
  \<open>length (objects h) + i\<close>, is in the bucket of the package directory of that path,
  once, and in no other bucket. That directory is a gathered directory that is a prefix
  of the path and at least as long as every other such directory, or the empty string
  when no gathered directory is a prefix.
\<close>

theorem element_joins_longest_prefix_package:
  assumes "Analysis_new h ds = Inr (h', this)" and "gather ds = Inr g"
      and "i < length (elementDescriptors g)"
  shows "\<exists>path. Map_get (elementPaths g) (elementDescriptors g ! i) = Some path
     \<and> (\<exists>hi hj ani. resolveElement hi (elementDescriptors g ! i) ani
                       = Inr (hj, length (objects h) + i)
           \<and> behaviorsByIdentifierName ani = behaviorsByIdentifierName this
           \<and> prefix (objects hj) (objects h'))
     \<and> (\<exists>l. getElementsForPackage this (longestMatchingPackageDir (packageDirs g) path) = Some l
           \<and> length (objects h) + i \<in> set l \<and> distinct l)
     \<and> (\<forall>d l. d \<noteq> longestMatchingPackageDir (packageDirs g) path
             \<and> getElementsForPackage this d = Some l
           \<longrightarrow> length (objects h) + i \<notin> set l)
     \<and> ((\<exists>d\<in>set (packageDirs g). prefix d path) \<longrightarrow>
           longestMatchingPackageDir (packageDirs g) path \<in> set (packageDirs g)
           \<and> prefix (longestMatchingPackageDir (packageDirs g) path) path
           \<and> (\<forall>d\<in>set (packageDirs g). prefix d path \<longrightarrow>
                 length d \<le> length (longestMatchingPackageDir (packageDirs g) path)))
     \<and> ((\<forall>d\<in>set (packageDirs g). \<not> prefix d path) \<longrightarrow>
           longestMatchingPackageDir (packageDirs g) path = [])"
proof -
  let ?es = "elementDescriptors g" and ?n = "length (objects h)"
  note C = constructed[OF assms(1,2)]
  from C(4)[OF assms(3)] obtain path where path: "Map_get (elementPaths g) (?es ! i) = Some path"
    by auto
  let ?dir = "longestMatchingPackageDir (packageDirs g) path"
  have od: "owner_dir g (?es ! i) = ?dir" by (simp add: owner_dir_def path)
  have mem: "?n + i \<in> set (placed g ?n ?es ?dir)"
    unfolding set_placed using assms(3) od by blast
  then have "getElementsForPackage this ?dir \<noteq> None" using C(2)[of ?dir] by auto
  then obtain l where l: "getElementsForPackage this ?dir = Some l" by auto
  have 1: "\<exists>l. getElementsForPackage this ?dir = Some l \<and> ?n + i \<in> set l \<and> distinct l"
    using l C(1)[OF l] mem distinct_placed by auto
  have 2: "\<forall>d l. d \<noteq> ?dir \<and> getElementsForPackage this d = Some l \<longrightarrow> ?n + i \<notin> set l"
  proof (intro allI impI)
    fix d l assume a: "d \<noteq> ?dir \<and> getElementsForPackage this d = Some l"
    then have l: "l = placed g ?n ?es d" using C(1) by blast
    have "?n + i \<notin> set (placed g ?n ?es d)"
      unfolding set_placed using a od by auto
    then show "?n + i \<notin> set l" unfolding l .
  qed
  have 3: "\<exists>hi hj ani. resolveElement hi (?es ! i) ani = Inr (hj, ?n + i)
           \<and> behaviorsByIdentifierName ani = behaviorsByIdentifierName this
           \<and> prefix (objects hj) (objects h')"
    using C(4)[OF assms(3)] by blast
  note 4 = longestMatchingPackageDir_longest[of "packageDirs g" path]
  show ?thesis
    apply (rule exI[of _ path])
    apply (intro conjI)
         apply (rule path)
        apply (rule 3)
       apply (rule 1)
      apply (rule 2)
     apply (rule 4[THEN conjunct1])
    apply (rule 4[THEN conjunct2])
    done
qed



text \<open>
  Manifests in \<open>/a\<close> and \<open>/a/b\<close>, and the element \<open>x-c\<close> (address 0) in
  \<open>/a/b/c.html\<close>; its clone is at address 1.
\<close>

definition pkg_forest :: "ddesc list" where
  "pkg_forest =
     [DD (JsonDocument ''/a/package.json'') [] [],
      DD (JsonDocument ''/a/b/bower.json'') [] [],
      DD (OtherDocument ''/a/b/c.html'') [ElementDescriptor 0] []]"

definition pkg_heap :: heap where
  "pkg_heap =
     \<lparr>items = [],
      objects = [\<lparr>tagName = Some ''x-c'', className = None, properties = [], attributes = [],
                  events = [], behaviors = [], polymer = False\<rparr>]\<rparr>"

definition pkg_gathered :: gathered where
  "pkg_gathered =
     \<lparr>packageDirs = [''/a'', ''/a/b''], elementDescriptors = [0],
      elementPaths = [(0, ''/a/b/c.html'')], behaviorDescriptors = [], behaviorPaths = []\<rparr>"

definition pkg_analysis :: analysis where
  "pkg_analysis =
     \<lparr>descriptors = pkg_forest, elementsByTagName = [(''x-c'', 1)],
      elementsByPackageDir = [(''/a/b'', [1])], behaviorsByIdentifierName = [],
      documentsByLocalPath =
        [(''/a/package.json'', DD (JsonDocument ''/a/package.json'') [] []),
         (''/a/b/bower.json'', DD (JsonDocument ''/a/b/bower.json'') [] []),
         (''/a/b/c.html'', DD (OtherDocument ''/a/b/c.html'') [ElementDescriptor 0] [])]\<rparr>"

lemma pkg_gather: "gather pkg_forest = Inr pkg_gathered"
  by (simp add: gather_run visits_def pkg_forest_def pkg_gathered_def gathered_empty_def
      PackageGatherer_visitDocumentDescriptor_def visitElement_gather_def
      getPathFromAncestors_def url_def basename_def dirname_def packageFileNames_def Map_get_def)

lemma pkg_longest: "longestMatchingPackageDir [''/a'', ''/a/b''] ''/a/b/c.html'' = ''/a/b''"
  by (simp add: longestMatchingPackageDir_def max_of_def longer_def)

lemma pkg_Analysis_new:
  "Analysis_new pkg_heap pkg_forest =
     Inr (pkg_heap\<lparr>objects := objects pkg_heap @ [objects pkg_heap ! 0]\<rparr>, pkg_analysis)"
  unfolding Analysis_new_def pkg_gather
  by (simp add: pkg_gathered_def pkg_longest indexElement_def resolveElement_def load_def alloc_def
      Map_get_def pkg_heap_def pkg_analysis_def pkg_forest_def url_def)


text \<open>C5 on this forest: the bucket of \<open>/a/b\<close> has the element, \<open>/a\<close> has no bucket.\<close>

theorem element_joins_longest_prefix_package_witness:
  "Analysis_new pkg_heap pkg_forest =
     Inr (pkg_heap\<lparr>objects := objects pkg_heap @ [objects pkg_heap ! 0]\<rparr>, pkg_analysis)
   \<and> packageDirs pkg_gathered = [''/a'', ''/a/b'']
   \<and> Map_get (elementPaths pkg_gathered) 0 = Some ''/a/b/c.html''
   \<and> getElementsForPackage pkg_analysis ''/a/b'' = Some [1]
   \<and> getElementsForPackage pkg_analysis ''/a'' = None
   \<and> (\<exists>l. getElementsForPackage pkg_analysis ''/a/b'' = Some l \<and> 1 \<in> set l \<and> distinct l)
   \<and> getElementsForPackage pkg_analysis ''/a'' \<noteq> Some [1]"
proof -
  have i: "0 < length (elementDescriptors pkg_gathered)" by (simp add: pkg_gathered_def)
  have e: "elementDescriptors pkg_gathered ! 0 = 0" "length (objects pkg_heap) + 0 = 1"
    by (simp_all add: pkg_gathered_def pkg_heap_def)
  have p: "Map_get (elementPaths pkg_gathered) 0 = Some ''/a/b/c.html''"
    by (simp add: pkg_gathered_def Map_get_def)
  have d: "packageDirs pkg_gathered = [''/a'', ''/a/b'']" by (simp add: pkg_gathered_def)
  from element_joins_longest_prefix_package[OF pkg_Analysis_new pkg_gather i]
  have "(\<exists>l. getElementsForPackage pkg_analysis
                (longestMatchingPackageDir (packageDirs pkg_gathered) ''/a/b/c.html'') = Some l
           \<and> 1 \<in> set l \<and> distinct l)
     \<and> (\<forall>d l. d \<noteq> longestMatchingPackageDir (packageDirs pkg_gathered) ''/a/b/c.html''
             \<and> getElementsForPackage pkg_analysis d = Some l
           \<longrightarrow> 1 \<notin> set l)"
    unfolding e p by auto
  then have o: "\<exists>l. getElementsForPackage pkg_analysis ''/a/b'' = Some l \<and> 1 \<in> set l \<and> distinct l"
    and n: "\<forall>d l. d \<noteq> ''/a/b'' \<and> getElementsForPackage pkg_analysis d = Some l \<longrightarrow> 1 \<notin> set l"
    by (simp_all add: d pkg_longest)
  from n[rule_format, of "''/a''" "[1]"]
  have n': "getElementsForPackage pkg_analysis ''/a'' \<noteq> Some [1]" by auto
  have g: "getElementsForPackage pkg_analysis ''/a/b'' = Some [1]"
    "getElementsForPackage pkg_analysis ''/a'' = None"
    by (simp_all add: getElementsForPackage_def pkg_analysis_def Map_get_def)
  show ?thesis using pkg_Analysis_new d p g o n' by blast
qed








section \<open>A behavior name that does not resolve\<close>

text \<open>
  A name is registered when a gathered behavior has it as its (non-empty) \<open>className\<close>:
  these are the names \<open>getBehavior\<close> finds. \<open>store_ok\<close> says that every reference held
  by a descriptor object points into the store, as every JavaScript reference does.
\<close>

definition registered :: "gathered \<Rightarrow> heap \<Rightarrow> string \<Rightarrow> bool" where
  "registered g h k =
     (k \<noteq> [] \<and> (\<exists>b\<in>set (behaviorDescriptors g). className (objects h ! b) = Some k))"

definition store_ok :: "heap \<Rightarrow> bool" where
  "store_ok h =
     (\<forall>obj\<in>set (objects h).
        (\<forall>a\<in>set (properties obj) \<union> set (attributes obj) \<union> set (events obj).
           a < length (items h))
        \<and> (\<forall>b. Direct b \<in> set (behaviors obj) \<longrightarrow> b < length (objects h)))"

lemma Map_has_get: "Map_has m k \<longleftrightarrow> Map_get m k \<noteq> None"
  by (simp add: Map_has_def Map_get_def map_of_eq_None_iff)

lemma indexBehaviors_Inr:
  "indexBehaviors h bs m = Inr m' \<Longrightarrow>
   (\<forall>k b. Map_get m' k = Some b \<longrightarrow>
      Map_get m k = Some b \<or> (b \<in> set bs \<and> b < length h \<and> className (h ! b) = Some k \<and> k \<noteq> []))
   \<and> (\<forall>k. Map_get m k \<noteq> None \<longrightarrow> Map_get m' k \<noteq> None)
   \<and> (\<forall>b\<in>set bs. \<forall>k. className (h ! b) = Some k \<and> k \<noteq> [] \<longrightarrow> Map_get m' k \<noteq> None)"
proof (induction bs arbitrary: m)
  case Nil
  then show ?case by simp
next
  case (Cons b bs)
  from Cons.prems have b: "b < length h" and ld: "load h b = Inr (h ! b)"
    by (auto simp: load_def split: if_splits)
  show ?case
  proof (cases "\<exists>c. className (h ! b) = Some c \<and> c \<noteq> []")
    case True
    then obtain c where c: "className (h ! b) = Some c" "c \<noteq> []" by blast
    with Cons.prems ld have "indexBehaviors h bs (Map_set m c b) = Inr m'" by simp
    from Cons.IH[OF this] show ?thesis using b c
      by (auto simp: Map_get_set split: if_splits)
  next
    case False
    with Cons.prems ld have "indexBehaviors h bs m = Inr m'"
      by (auto split: option.splits if_splits)
    from Cons.IH[OF this] show ?thesis using b False by auto
  qed
qed

lemma indexBehaviors_total:
  "\<forall>b\<in>set bs. b < length h \<Longrightarrow> \<exists>m'. indexBehaviors h bs m = Inr m'"
  by (induction bs arbitrary: m) (auto simp: load_def split: option.splits)

lemma rec_fails_on_missing:
  "ByName n \<in> set bs \<Longrightarrow> getBehavior an n = None \<Longrightarrow>
   \<exists>err. getFlattenedAndResolvedBehaviors_rec h an bs vis = Inl err"
proof (induction h an bs vis rule: rec_induct)
  case (1 h an vis)
  then show ?case by simp
next
  case (2 h an r rest vis)
  show ?case
  proof (cases "getFlattenedAndResolvedBehaviors_rec h an (r # rest) vis")
    case (Inl e)
    then show ?thesis by blast
  next
    case (Inr out)
    then show ?thesis
    proof (cases rule: rec_Cons_Inr)
      case (1 b)
      then have "r \<noteq> ByName n" using "2.prems"(2) by (auto simp: lookupBehavior_def)
      then have "ByName n \<in> set rest" using "2.prems"(1) by auto
      from "2.IH"(1)[OF 1(1) 1(2) this "2.prems"(2)] 1(3) show ?thesis by simp
    next
      case (2 b mid)
      then have "r \<noteq> ByName n" using "2.prems"(2) by (auto simp: lookupBehavior_def)
      then have "ByName n \<in> set rest" using "2.prems"(1) by auto
      from "2.IH"(3)[OF 2(1) 2(2) 2(4) 2(5) this "2.prems"(2)] 2(6) show ?thesis by simp
    qed
  qed
qed

text \<open>The entries of a list that resolve, resolve to objects of the store.\<close>

definition refs_ok :: "descriptor_obj list \<Rightarrow> analysis \<Rightarrow> behavior_ref list \<Rightarrow> bool" where
  "refs_ok h an bs = (\<forall>r\<in>set bs. \<forall>b. lookupBehavior an r = Inr b \<longrightarrow> b < length h)"

lemma rec_Inl:
  "getFlattenedAndResolvedBehaviors_rec h an bs vis = Inl err \<Longrightarrow>
   refs_ok h an bs \<Longrightarrow> \<forall>obj\<in>set h. refs_ok h an (behaviors obj) \<Longrightarrow>
   \<exists>m. err = UnableToResolveBehavior m \<and> getBehavior an m = None
       \<and> (ByName m \<in> set bs \<or> (\<exists>obj\<in>set h. ByName m \<in> set (behaviors obj)))"
proof (induction h an bs vis rule: rec_induct)
  case (1 h an vis)
  then show ?case by simp
next
  case (2 h an r rest vis)
  have rest_ok: "refs_ok h an rest" using "2.prems"(2) by (simp add: refs_ok_def)
  show ?case
  proof (cases "lookupBehavior an r")
    case (Inl e)
    then have "err = e" using "2.prems"(1) by (simp add: rec_simps)
    moreover from Inl obtain m where "r = ByName m" "getBehavior an m = None"
      "e = UnableToResolveBehavior m"
      by (auto simp: lookupBehavior_def split: behavior_ref.splits option.splits)
    ultimately show ?thesis by auto
  next
    case (Inr b)
    then have b: "b < length h" using "2.prems"(2) by (simp add: refs_ok_def)
    then have ld: "load h b = Inr (h ! b)" by (simp add: load_def)
    have hb: "h ! b \<in> set h" using b by simp
    show ?thesis
    proof (cases "b \<in> set vis")
      case True
      then have "getFlattenedAndResolvedBehaviors_rec h an rest vis = Inl err"
        using "2.prems"(1) Inr by (simp add: rec_simps)
      from "2.IH"(1)[OF Inr True this rest_ok "2.prems"(3)] show ?thesis by auto
    next
      case False
      show ?thesis
      proof (cases "getFlattenedAndResolvedBehaviors_rec h an (behaviors (h ! b)) (vis @ [b])")
        case inner: (Inl e)
        then have "err = e" using "2.prems"(1) Inr False ld by (simp add: rec_simps)
        with inner have i: "getFlattenedAndResolvedBehaviors_rec h an (behaviors (h ! b)) (vis @ [b]) = Inl err"
          by simp
        have "refs_ok h an (behaviors (h ! b))" using "2.prems"(3) hb by blast
        from "2.IH"(2)[OF Inr False ld i this "2.prems"(3)] hb show ?thesis by blast
      next
        case inner: (Inr mid)
        then have "getFlattenedAndResolvedBehaviors_rec h an rest mid = Inl err"
          using "2.prems"(1) Inr False ld by (simp add: rec_simps)
        from "2.IH"(3)[OF Inr False ld inner this rest_ok "2.prems"(3)] show ?thesis by auto
      qed
    qed
  qed
qed

lemma rec_out_valid:
  "getFlattenedAndResolvedBehaviors_rec h an bs vis = Inr out \<Longrightarrow>
   set out \<subseteq> set vis \<union> {..<length h}"
proof (induction h an bs vis arbitrary: out rule: rec_induct)
  case (1 h an vis)
  then show ?case by simp
next
  case (2 h an r rest vis)
  from "2.prems" show ?case
  proof (cases rule: rec_Cons_Inr)
    case (1 b)
    from "2.IH"(1)[OF 1(1) 1(2) 1(3)] show ?thesis .
  next
    case (2 b mid)
    from "2.IH"(2)[OF 2(1) 2(2) 2(4) 2(5)] "2.IH"(3)[OF 2(1) 2(2) 2(4) 2(5) 2(6)] 2(3)
    show ?thesis by auto
  qed
qed

lemma loadAll_valid: "\<forall>a\<in>set as. a < length h \<Longrightarrow> loadAll h as = Inr (map ((!) h) as)"
  by (induction as) (auto simp: load_def)


lemma setInitial_total:
  "\<forall>a\<in>set base. a < length h \<Longrightarrow>
   \<exists>m0. setInitial h base m = Inr m0 \<and> set (map snd m0) \<subseteq> set (map snd m) \<union> set base"
proof (induction base arbitrary: m)
  case Nil
  then show ?case by simp
next
  case (Cons a base)
  then have ld: "load h a = Inr (h ! a)" by (simp add: load_def)
  from Cons.IH[of "Map_set m (name (h ! a)) a"] Cons.prems
  obtain m0 where m0: "setInitial h base (Map_set m (name (h ! a)) a) = Inr m0"
    "set (map snd m0) \<subseteq> set (map snd (Map_set m (name (h ! a)) a)) \<union> set base"
    by auto
  have "set (map snd (Map_set m (name (h ! a)) a)) \<subseteq> insert a (set (map snd m))"
    using Map_values_set[of m "name (h ! a)" a] by (simp add: Map_values_def)
  with m0(2) have "set (map snd m0) \<subseteq> set (map snd m) \<union> set (a # base)" by auto
  moreover have "setInitial h (a # base) m = Inr m0" using m0(1) ld by simp
  ultimately show ?case by blast
qed

lemma mergeByName_total:
  assumes "\<forall>a\<in>set base. a < length h"
      and "\<forall>(s, vals)\<in>set srcs. \<forall>a\<in>set vals. a < length h"
  shows "\<exists>ex res. mergeByName h base srcs = Inr (h @ ex, res) \<and> (\<forall>c\<in>set res. c < length (h @ ex))"
proof -
  from setInitial_total[OF assms(1), of "[]"] obtain m0 where
    m0: "setInitial h base [] = Inr m0" "set (map snd m0) \<subseteq> set base"
    by auto
  let ?P = "pick h (set (map fst m0)) (pairs srcs)"
  have run: "mergeByName h base srcs =
      Inr (h @ map (copyOf h) ?P, map snd m0 @ [length h ..< length h + length ?P])"
    using inheritSources_pick[OF assms(2), of "[]" m0] m0(1)
    by (simp add: mergeByName_def Map_values_def map_snd_entries)
  have "\<forall>c\<in>set (map snd m0 @ [length h ..< length h + length ?P]).
          c < length (h @ map (copyOf h) ?P)"
    using m0(2) assms(1) by fastforce
  then show ?thesis using run by blast
qed

text \<open>The behavior index points into the store.\<close>

definition index_ok :: "heap \<Rightarrow> analysis \<Rightarrow> bool" where
  "index_ok h an =
     (\<forall>k b. Map_get (behaviorsByIdentifierName an) k = Some b \<longrightarrow> b < length (objects h))"

lemma store_refs_ok:
  assumes "store_ok h" "index_ok h an" "obj \<in> set (objects h)"
  shows "refs_ok (objects h) an (behaviors obj)"
  unfolding refs_ok_def
proof (intro ballI allI impI)
  fix r b assume r: "r \<in> set (behaviors obj)" and l: "lookupBehavior an r = Inr b"
  show "b < length (objects h)"
  proof (cases r)
    case (ByName k)
    then have "Map_get (behaviorsByIdentifierName an) k = Some b"
      using l by (auto simp: lookupBehavior_def getBehavior_def split: option.splits)
    then show ?thesis using assms(2) by (auto simp: index_ok_def)
  next
    case (Direct b')
    then have "b' = b" using l by (simp add: lookupBehavior_def)
    then show ?thesis using assms(1,3) r Direct by (auto simp: store_ok_def)
  qed
qed

lemma resolveElement_cases:
  assumes ok: "store_ok h" and ix: "index_ok h an" and e: "e < length (objects h)"
  obtains (fail) m where "resolveElement h e an = Inl (UnableToResolveBehavior m)"
      "getBehavior an m = None" "\<exists>obj\<in>set (objects h). ByName m \<in> set (behaviors obj)"
  | (succeed) h' where "resolveElement h e an = Inr (h', length (objects h))" "store_ok h'"
      "polymer (objects h ! e) \<longrightarrow>
         (\<forall>n. ByName n \<in> set (behaviors (objects h ! e)) \<longrightarrow> getBehavior an n \<noteq> None)"
proof -
  let ?obj = "objects h ! e"
  have ld: "load (objects h) e = Inr ?obj" using e by (simp add: load_def)
  have oin: "?obj \<in> set (objects h)" using e by simp
  have old: "\<And>obj a. obj \<in> set (objects h) \<Longrightarrow>
      a \<in> set (properties obj) \<union> set (attributes obj) \<union> set (events obj) \<Longrightarrow> a < length (items h)"
    using ok by (auto simp: store_ok_def)
  have dir: "\<And>obj b. obj \<in> set (objects h) \<Longrightarrow> Direct b \<in> set (behaviors obj) \<Longrightarrow>
      b < length (objects h)"
    using ok by (auto simp: store_ok_def)
  have upd: "\<And>x f. ((objects h @ [x])[length (objects h) := f x]) = objects h @ [f x]"
    by simp
  show ?thesis
  proof (cases "polymer ?obj")
    case False
    let ?h' = "\<lparr>items = items h, objects = objects h @ [?obj\<lparr>polymer := False\<rparr>]\<rparr>"
    have r: "resolveElement h e an = Inr (?h', length (objects h))"
      using False ld by (simp add: resolveElement_def alloc_def)
    have "store_ok ?h'"
      unfolding store_ok_def using old dir oin by (auto simp: less_Suc_eq)
    then show ?thesis using succeed[OF r] False by simp
  next
    case True
    show ?thesis
    proof (cases "getFlattenedAndResolvedBehaviors_rec (objects h) an (behaviors ?obj) []")
      case (Inl err)
      have "\<forall>obj\<in>set (objects h). refs_ok (objects h) an (behaviors obj)"
        using store_refs_ok[OF ok ix] by blast
      from rec_Inl[OF Inl this[rule_format, OF oin] this] oin
      obtain m where "err = UnableToResolveBehavior m" "getBehavior an m = None"
        "\<exists>obj\<in>set (objects h). ByName m \<in> set (behaviors obj)"
        by blast
      moreover have "resolveElement h e an = Inl err"
        using True ld Inl by (simp add: resolveElement_def getFlattenedAndResolvedBehaviors_def)
      ultimately show ?thesis using fail by blast
    next
      case (Inr resolved)
      have nomiss: "\<forall>n. ByName n \<in> set (behaviors ?obj) \<longrightarrow> getBehavior an n \<noteq> None"
      proof (intro allI impI)
        fix n assume "ByName n \<in> set (behaviors ?obj)"
        then show "getBehavior an n \<noteq> None"
          using rec_fails_on_missing[of n "behaviors ?obj" an "objects h" "[]"] Inr by auto
      qed
      have rv: "\<forall>b\<in>set resolved. b < length (objects h)"
        using rec_out_valid[OF Inr] by auto
      let ?bs = "map ((!) (objects h)) resolved"
      have la: "loadAll (objects h) resolved = Inr ?bs" by (rule loadAll_valid[OF rv])
      have bin: "\<And>b. b \<in> set ?bs \<Longrightarrow> b \<in> set (objects h)" using rv by auto
      have v1: "\<forall>(s, vals)\<in>set (map (\<lambda>b. (className b, properties b)) ?bs).
                  \<forall>a\<in>set vals. a < length (items h)"
        using old bin by fastforce
      from mergeByName_total[OF _ v1, of "properties ?obj"] old[OF oin]
      obtain ex1 props where
        m1: "mergeByName (items h) (properties ?obj) (map (\<lambda>b. (className b, properties b)) ?bs)
               = Inr (items h @ ex1, props)"
        and p1: "\<forall>c\<in>set props. c < length (items h @ ex1)"
        by auto
      have v2: "\<forall>(s, vals)\<in>set (map (\<lambda>b. (className b, attributes b)) ?bs).
                  \<forall>a\<in>set vals. a < length (items h @ ex1)"
        using old bin by fastforce
      have b2: "\<forall>a\<in>set (attributes ?obj). a < length (items h @ ex1)"
        using old[OF oin] by fastforce
      from mergeByName_total[OF b2 v2]
      obtain ex2 attrs where
        m2: "mergeByName (items h @ ex1) (attributes ?obj)
               (map (\<lambda>b. (className b, attributes b)) ?bs) = Inr ((items h @ ex1) @ ex2, attrs)"
        and p2: "\<forall>c\<in>set attrs. c < length ((items h @ ex1) @ ex2)"
        by auto
      have v3: "\<forall>(s, vals)\<in>set (map (\<lambda>b. (className b, events b)) ?bs).
                  \<forall>a\<in>set vals. a < length ((items h @ ex1) @ ex2)"
        using old bin by fastforce
      have b3: "\<forall>a\<in>set (events ?obj). a < length ((items h @ ex1) @ ex2)"
        using old[OF oin] by fastforce
      from mergeByName_total[OF b3 v3]
      obtain ex3 evs where
        m3: "mergeByName ((items h @ ex1) @ ex2) (events ?obj)
               (map (\<lambda>b. (className b, events b)) ?bs) = Inr (((items h @ ex1) @ ex2) @ ex3, evs)"
        and p3: "\<forall>c\<in>set evs. c < length (((items h @ ex1) @ ex2) @ ex3)"
        by auto
      let ?h' = "\<lparr>items = ((items h @ ex1) @ ex2) @ ex3,
                  objects = objects h @ [?obj\<lparr>properties := props, attributes := attrs,
                                               events := evs, polymer := False\<rparr>]\<rparr>"
      have r: "resolveElement h e an = Inr (?h', length (objects h))"
        using True ld Inr la m1 m2 m3
        by (simp add: resolveElement_def getFlattenedAndResolvedBehaviors_def alloc_def)
      have "store_ok ?h'"
        unfolding store_ok_def
      proof
        fix obj assume "obj \<in> set (objects ?h')"
        then consider "obj \<in> set (objects h)"
          | "obj = ?obj\<lparr>properties := props, attributes := attrs, events := evs, polymer := False\<rparr>"
          by auto
        then show "(\<forall>a\<in>set (properties obj) \<union> set (attributes obj) \<union> set (events obj).
                     a < length (items ?h'))
                 \<and> (\<forall>b. Direct b \<in> set (behaviors obj) \<longrightarrow> b < length (objects ?h'))"
        proof cases
          case 1
          then show ?thesis using old[OF 1] dir[OF 1] by fastforce
        next
          case 2
          then show ?thesis using p1 p2 p3 dir[OF oin] by fastforce
        qed
      qed
      then show ?thesis using succeed[OF r] nomiss by simp
    qed
  qed
qed


lemma indexElements_cases:
  assumes "store_ok h" "index_ok h an"
      and "\<forall>e\<in>set es. e < length (objects h) \<and> Map_get (elementPaths g) e \<noteq> None"
  shows "(\<exists>m. indexElements g es (h, an) = Inl (UnableToResolveBehavior m)
            \<and> getBehavior an m = None
            \<and> (\<exists>obj\<in>set (objects h). ByName m \<in> set (behaviors obj)))
       \<or> ((\<exists>st. indexElements g es (h, an) = Inr st)
          \<and> (\<forall>e\<in>set es. polymer (objects h ! e) \<longrightarrow>
                (\<forall>n. ByName n \<in> set (behaviors (objects h ! e)) \<longrightarrow> getBehavior an n \<noteq> None)))"
  using assms
proof (induction es arbitrary: h an)
  case Nil
  then show ?case by simp
next
  case (Cons e es)
  have e: "e < length (objects h)" and pth: "Map_get (elementPaths g) e \<noteq> None"
    using Cons.prems(3) by auto
  from Cons.prems(1,2) e show ?case
  proof (cases rule: resolveElement_cases)
    case (fail m)
    then have "indexElements g (e # es) (h, an) = Inl (UnableToResolveBehavior m)"
      by (simp add: indexElement_def)
    then show ?thesis using fail by blast
  next
    case (succeed h1)
    from resolveElement_Inr[OF succeed(1)] obtain props attrs evs where
      o: "objects h1 = objects h @
           [(objects h ! e)\<lparr>properties := props, attributes := attrs, events := evs,
                             polymer := False\<rparr>]"
      by blast
    have ld: "load (objects h1) (length (objects h)) =
        Inr ((objects h ! e)\<lparr>properties := props, attributes := attrs, events := evs,
                               polymer := False\<rparr>)"
      by (simp add: load_def o)
    from pth obtain path where path: "Map_get (elementPaths g) e = Some path" by auto
    obtain an1 where step: "indexElement g e (h, an) = Inr (h1, an1)"
      using succeed(1) ld path by (simp add: indexElement_def Let_def)
    have bn: "behaviorsByIdentifierName an1 = behaviorsByIdentifierName an"
      using indexElement_Inr[OF step] by simp
    then have gb: "\<And>k. getBehavior an1 k = getBehavior an k" by (simp add: getBehavior_def)
    have ix1: "index_ok h1 an1"
      using Cons.prems(2) bn o by (fastforce simp: index_ok_def)
    have v1: "\<forall>e'\<in>set es. e' < length (objects h1) \<and> Map_get (elementPaths g) e' \<noteq> None"
      using Cons.prems(3) o by auto
    have same: "\<And>e'. e' < length (objects h) \<Longrightarrow> objects h1 ! e' = objects h ! e'"
      by (simp add: o nth_append)
    have older: "\<And>m. (\<exists>obj\<in>set (objects h1). ByName m \<in> set (behaviors obj)) \<Longrightarrow>
        \<exists>obj\<in>set (objects h). ByName m \<in> set (behaviors obj)"
    proof -
      fix m assume "\<exists>obj\<in>set (objects h1). ByName m \<in> set (behaviors obj)"
      then obtain obj where obj: "obj \<in> set (objects h1)" "ByName m \<in> set (behaviors obj)"
        by blast
      show "\<exists>obj\<in>set (objects h). ByName m \<in> set (behaviors obj)"
      proof (cases "obj \<in> set (objects h)")
        case True
        then show ?thesis using obj by blast
      next
        case False
        then have "behaviors obj = behaviors (objects h ! e)" using obj(1) o by auto
        moreover have "objects h ! e \<in> set (objects h)" using e by simp
        ultimately show ?thesis using obj(2) by metis
      qed
    qed
    have loop: "indexElements g (e # es) (h, an) = indexElements g es (h1, an1)"
      using step by simp
    from Cons.IH[OF succeed(2) ix1 v1] show ?thesis
    proof
      assume "\<exists>m. indexElements g es (h1, an1) = Inl (UnableToResolveBehavior m)
            \<and> getBehavior an1 m = None
            \<and> (\<exists>obj\<in>set (objects h1). ByName m \<in> set (behaviors obj))"
      then show ?thesis unfolding loop gb using older by blast
    next
      assume a: "(\<exists>st. indexElements g es (h1, an1) = Inr st)
          \<and> (\<forall>e\<in>set es. polymer (objects h1 ! e) \<longrightarrow>
                (\<forall>n. ByName n \<in> set (behaviors (objects h1 ! e)) \<longrightarrow> getBehavior an1 n \<noteq> None))"
      have "\<forall>e'\<in>set (e # es). polymer (objects h ! e') \<longrightarrow>
                (\<forall>n. ByName n \<in> set (behaviors (objects h ! e')) \<longrightarrow> getBehavior an n \<noteq> None)"
      proof
        fix e' assume "e' \<in> set (e # es)"
        then consider "e' = e" | "e' \<in> set es" by auto
        then show "polymer (objects h ! e') \<longrightarrow>
                (\<forall>n. ByName n \<in> set (behaviors (objects h ! e')) \<longrightarrow> getBehavior an n \<noteq> None)"
        proof cases
          case 1
          then show ?thesis using succeed(3) by simp
        next
          case 2
          then have "e' < length (objects h)" using Cons.prems(3) by simp
          from same[OF this] a 2 show ?thesis unfolding gb by force
        qed
      qed
      then show ?thesis unfolding loop using a by blast
    qed
  qed
qed

text \<open>
  C7, as amended. Let the walk succeed, and let every reference of the forest and of the
  store point into the store. If some gathered Polymer element lists a symbolic name
  \<open>n\<close> that no gathered behavior has as its \<open>className\<close>, then construction fails
  with the error of an unresolved behavior. The name \<open>m\<close> in that error is contained in
  the message, is not registered, and occurs as a symbolic name in a behaviors list of
  the store; so it is \<open>n\<close> itself when \<open>n\<close> is the only unregistered name in the
  store.
\<close>

theorem unresolved_behavior_fails_construction:
  assumes "gather ds = Inr g"
      and "store_ok h"
      and "\<forall>a\<in>set (elementDescriptors g) \<union> set (behaviorDescriptors g). a < length (objects h)"
      and "e \<in> set (elementDescriptors g)"
      and "polymer (objects h ! e)"
      and "ByName n \<in> set (behaviors (objects h ! e))"
      and "\<forall>b\<in>set (behaviorDescriptors g). className (objects h ! b) \<noteq> Some n"
  shows "\<exists>m. Analysis_new h ds = Inl (UnableToResolveBehavior m)
       \<and> sublist m (message (UnableToResolveBehavior m))
       \<and> \<not> registered g h m
       \<and> (\<exists>obj\<in>set (objects h). ByName m \<in> set (behaviors obj))
       \<and> ((\<forall>obj\<in>set (objects h). \<forall>k. ByName k \<in> set (behaviors obj) \<and> \<not> registered g h k
               \<longrightarrow> k = n)
            \<longrightarrow> m = n)"
proof -
  have bv: "\<forall>b\<in>set (behaviorDescriptors g). b < length (objects h)" using assms(3) by auto
  from indexBehaviors_total[OF bv, of "[]"] obtain byName where
    ib: "indexBehaviors (objects h) (behaviorDescriptors g) [] = Inr byName"
    by blast
  note I = indexBehaviors_Inr[OF ib]
  let ?an = "\<lparr>descriptors = ds, elementsByTagName = [], elementsByPackageDir = [],
              behaviorsByIdentifierName = byName, documentsByLocalPath = []\<rparr>"
  have gb: "\<And>k. getBehavior ?an k = Map_get byName k" by (simp add: getBehavior_def)
  have ix: "index_ok h ?an"
    using I by (auto simp: index_ok_def Map_get_def)
  have reg: "\<And>k. getBehavior ?an k = None \<longleftrightarrow> \<not> registered g h k"
  proof -
    fix k
    show "getBehavior ?an k = None \<longleftrightarrow> \<not> registered g h k"
    proof
      assume "getBehavior ?an k = None"
      then show "\<not> registered g h k" using I by (auto simp: gb registered_def)
    next
      assume nr: "\<not> registered g h k"
      show "getBehavior ?an k = None"
      proof (rule ccontr)
        assume "getBehavior ?an k \<noteq> None"
        then obtain b where "Map_get byName k = Some b" by (auto simp: gb)
        with I have "b \<in> set (behaviorDescriptors g) \<and> className (objects h ! b) = Some k \<and> k \<noteq> []"
          by (auto simp: Map_get_def)
        then show False using nr by (auto simp: registered_def)
      qed
    qed
  qed
  have ro: "recorded_once g" by (rule gather_recorded_once(1)[OF assms(1)])
  have ev: "\<forall>e\<in>set (elementDescriptors g). e < length (objects h) \<and> Map_get (elementPaths g) e \<noteq> None"
    using assms(3) ro by (auto simp: recorded_once_def)
  have miss: "getBehavior ?an n = None"
    unfolding reg using assms(7) by (auto simp: registered_def)
  from indexElements_cases[OF assms(2) ix ev] assms(4,5,6) miss
  obtain m where m: "indexElements g (elementDescriptors g) (h, ?an) = Inl (UnableToResolveBehavior m)"
    "getBehavior ?an m = None" "\<exists>obj\<in>set (objects h). ByName m \<in> set (behaviors obj)"
    by blast
  have run: "Analysis_new h ds = Inl (UnableToResolveBehavior m)"
    using assms(1) ib m(1) by (simp add: Analysis_new_def)
  have msg: "sublist m (message (UnableToResolveBehavior m))"
  proof -
    have "message (UnableToResolveBehavior m) =
        (''Unable to resolve behavior '' @ [CHR 0x60]) @ m @
        ([CHR 0x60] @ '' '' @ ''Did you import it? Is it annotated with @polymerBehavior?'')"
      by simp
    then show ?thesis unfolding sublist_def by blast
  qed
  have nr: "\<not> registered g h m" using m(2) reg by simp
  have only: "(\<forall>obj\<in>set (objects h). \<forall>k. ByName k \<in> set (behaviors obj) \<and> \<not> registered g h k
               \<longrightarrow> k = n) \<longrightarrow> m = n"
    using m(3) nr by blast
  show ?thesis using run msg nr m(3) only by blast
qed


text \<open>
  The element \<open>x-a\<close> in \<open>/app/index.html\<close>, listing the given behavior names; no
  behavior is declared anywhere.
\<close>

definition foo_forest :: "ddesc list" where
  "foo_forest = [DD (OtherDocument ''/app/index.html'') [ElementDescriptor 0] []]"

definition foo_gathered :: gathered where
  "foo_gathered =
     \<lparr>packageDirs = [], elementDescriptors = [0],
      elementPaths = [(0, ''/app/index.html'')], behaviorDescriptors = [], behaviorPaths = []\<rparr>"

definition wants :: "string list \<Rightarrow> heap" where
  "wants names =
     \<lparr>items = [],
      objects = [\<lparr>tagName = Some ''x-a'', className = None, properties = [], attributes = [],
                  events = [], behaviors = map ByName names, polymer = True\<rparr>]\<rparr>"

lemma foo_gather: "gather foo_forest = Inr foo_gathered"
  by (simp add: gather_run visits_def foo_forest_def foo_gathered_def gathered_empty_def
      PackageGatherer_visitDocumentDescriptor_def visitElement_gather_def
      getPathFromAncestors_def url_def Map_get_def)

text \<open>C7 for the element that lists \<open>Foo\<close>: the message contains \<open>Foo\<close>.\<close>

theorem unresolved_behavior_fails_construction_witness:
  "Analysis_new (wants [''Foo'']) foo_forest = Inl (UnableToResolveBehavior ''Foo'')
   \<and> sublist ''Foo'' (message (UnableToResolveBehavior ''Foo''))"
proof -
  have ok: "store_ok (wants [''Foo''])" by (simp add: store_ok_def wants_def)
  have v: "\<forall>a\<in>set (elementDescriptors foo_gathered) \<union> set (behaviorDescriptors foo_gathered).
             a < length (objects (wants [''Foo'']))"
    by (simp add: foo_gathered_def wants_def)
  have e: "0 \<in> set (elementDescriptors foo_gathered)" by (simp add: foo_gathered_def)
  have p: "polymer (objects (wants [''Foo'']) ! 0)" by (simp add: wants_def)
  have n: "ByName ''Foo'' \<in> set (behaviors (objects (wants [''Foo'']) ! 0))"
    by (simp add: wants_def)
  have b: "\<forall>b\<in>set (behaviorDescriptors foo_gathered).
             className (objects (wants [''Foo'']) ! b) \<noteq> Some ''Foo''"
    by (simp add: foo_gathered_def)
  have only: "\<forall>obj\<in>set (objects (wants [''Foo''])).
      \<forall>k. ByName k \<in> set (behaviors obj) \<and> \<not> registered foo_gathered (wants [''Foo'']) k
        \<longrightarrow> k = ''Foo''"
    by (simp add: wants_def)
  from unresolved_behavior_fails_construction[OF foo_gather ok v e p n b] only
  obtain m where "Analysis_new (wants [''Foo'']) foo_forest = Inl (UnableToResolveBehavior m)"
    "sublist m (message (UnableToResolveBehavior m))" "m = ''Foo''"
    by blast
  then show ?thesis by simp
qed

text \<open>
  C7 as stated fails for the second of two unresolved names: the element lists \<open>Foo\<close>
  and \<open>Zed\<close>, no behavior has either name, and the error names \<open>Foo\<close>; its message
  does not contain \<open>Zed\<close>.
\<close>

theorem unresolved_behavior_second_name_counterexample:
  "gather foo_forest = Inr foo_gathered
   \<and> behaviorDescriptors foo_gathered = []
   \<and> ByName ''Zed'' \<in> set (behaviors (objects (wants [''Foo'', ''Zed'']) ! 0))
   \<and> Analysis_new (wants [''Foo'', ''Zed'']) foo_forest = Inl (UnableToResolveBehavior ''Foo'')
   \<and> message (UnableToResolveBehavior ''Foo'') =
       ''Unable to resolve behavior '' @ [CHR 0x60] @ ''Foo'' @ [CHR 0x60] @
       '' Did you import it? Is it annotated with @polymerBehavior?''
   \<and> \<not> sublist ''Zed'' (message (UnableToResolveBehavior ''Foo''))"
proof -
  have run: "Analysis_new (wants [''Foo'', ''Zed'']) foo_forest = Inl (UnableToResolveBehavior ''Foo'')"
    unfolding Analysis_new_def foo_gather
    by (simp add: foo_gathered_def indexElement_def resolveElement_def load_def wants_def
        getFlattenedAndResolvedBehaviors_def rec_simps lookupBehavior_def getBehavior_def
        Map_get_def)
  have no: "\<not> sublist ''Zed'' (message (UnableToResolveBehavior ''Foo''))"
    by (simp add: sublist_Cons_right prefix_Cons)
  show ?thesis using run no foo_gather by (simp add: foo_gathered_def wants_def)
qed

end
